theory Spec2Isabelle
  imports Main "HOL-Library.Word"
begin

section \<open>The program \<^verbatim>\<open>lab01/05/omp-sieve.c\<close>\<close>

text \<open>
  The program counts the primes in \<open>{2, ..., n}\<close> with the sieve of Eratosthenes. The
  flags live in a \<^verbatim>\<open>char\<close> array \<^verbatim>\<open>isprime\<close> of \<open>n + 1\<close> bytes that only ever hold 0 or 1,
  modelled as a \<open>bool list\<close>.

  The C type \<^verbatim>\<open>long\<close> has 64 bits on the platform of the program. Its values are
  modelled as integers, and every addition, subtraction, multiplication and division
  that the program performs on a \<^verbatim>\<open>long\<close> is followed by \<open>long\<close>, which wraps the result
  into \<open>{-2^63, ..., 2^63 - 1}\<close>, as the machine does. The thread numbers are of type
  \<^verbatim>\<open>int\<close>, with 32 bits, wrapped by \<open>cint\<close>. Reading or writing outside the array is
  undefined behaviour in C; the model makes it the error value \<open>OutOfBounds\<close>, and the
  division by a zero stride the error value \<open>DivByZero\<close>.
\<close>

datatype error = OutOfBounds int | DivByZero

definition long :: "int \<Rightarrow> int" where
  "long x = (x + 2 ^ 63) mod 2 ^ 64 - 2 ^ 63"

definition cint :: "int \<Rightarrow> int" where
  "cint x = (x + 2 ^ 31) mod 2 ^ 32 - 2 ^ 31"

text \<open>C99 division truncates towards zero.\<close>

definition cdiv :: "int \<Rightarrow> int \<Rightarrow> int" where
  "cdiv a b = sgn a * sgn b * (\<bar>a\<bar> div \<bar>b\<bar>)"

subsection \<open>\<^verbatim>\<open>mark\<close>\<close>

text \<open>
  The loop \<^verbatim>\<open>for (long x = my_from; x < my_to; x += p)\<close> of one thread. It runs forever when
  \<open>p = 0\<close>, so it is a partial function: \<open>None\<close> is "does not return". The shared
  counter \<^verbatim>\<open>nmarked\<close> is incremented atomically, so it is threaded through.
\<close>

partial_function (option) mark_loop ::
  "bool list \<Rightarrow> int \<Rightarrow> int \<Rightarrow> int \<Rightarrow> int \<Rightarrow> (error + bool list \<times> int) option" where
  "mark_loop isprime x my_to p nmarked =
     (if x < my_to then
        (if x < 0 \<or> int (length isprime) \<le> x then Some (Inl (OutOfBounds x))
         else if isprime ! nat x
              then mark_loop (isprime[nat x := False]) (long (x + p)) my_to p (long (nmarked + 1))
              else mark_loop isprime (long (x + p)) my_to p nmarked)
      else Some (Inr (isprime, nmarked)))"

declare mark_loop.simps [code]

text \<open>
  The bounds of the partition of thread \<open>my_id\<close> among \<open>num_threads\<close> threads, with
  \<^verbatim>\<open>n = to - from\<close>: \<^verbatim>\<open>from + ((n * my_id) / num_threads)\<close> and
  \<^verbatim>\<open>from + ((n * (my_id + 1)) / num_threads)\<close>.
\<close>

definition my_from :: "int \<Rightarrow> int \<Rightarrow> int \<Rightarrow> int \<Rightarrow> int" where
  "my_from num_threads from to my_id =
     long (from + long (cdiv (long (long (to - from) * my_id)) num_threads))"

definition my_to :: "int \<Rightarrow> int \<Rightarrow> int \<Rightarrow> int \<Rightarrow> int" where
  "my_to num_threads from to my_id =
     long (from + long (cdiv (long (long (to - from) * cint (my_id + 1))) num_threads))"

text \<open>
  The body of the parallel region, as run by the thread \<open>my_id\<close>; the start of its
  block is rounded up by \<^verbatim>\<open>((my_from + p - 1)/p)*p\<close>.
\<close>

definition mark_thread ::
  "int \<Rightarrow> int \<Rightarrow> int \<Rightarrow> int \<Rightarrow> int \<Rightarrow> bool list \<times> int \<Rightarrow> (error + bool list \<times> int) option" where
  "mark_thread num_threads from to p my_id s =
     (if p = 0 then Some (Inl DivByZero)
      else mark_loop (fst s)
             (long (long (cdiv (long (long (my_from num_threads from to my_id + p) - 1)) p) * p))
             (my_to num_threads from to my_id) p (snd s))"

text \<open>
  The parallel region: every thread of the team runs the body. The model runs the
  threads one after the other, in the order of the list of thread numbers; where the
  arithmetic stays in the range of \<^verbatim>\<open>long\<close> they write disjoint parts of the array, and
  the order does not matter (lemma \<open>mark_schedule\<close>).
\<close>

fun mark_threads ::
  "int \<Rightarrow> int \<Rightarrow> int \<Rightarrow> int \<Rightarrow> int list \<Rightarrow> bool list \<times> int \<Rightarrow> (error + bool list \<times> int) option" where
  "mark_threads num_threads from to p [] s = Some (Inr s)"
| "mark_threads num_threads from to p (my_id # ids) s =
     (case mark_thread num_threads from to p my_id s of
        Some (Inr s') \<Rightarrow> mark_threads num_threads from to p ids s'
      | r \<Rightarrow> r)"

definition mark :: "nat \<Rightarrow> bool list \<Rightarrow> int \<Rightarrow> int \<Rightarrow> int \<Rightarrow> (error + bool list \<times> int) option" where
  "mark num_threads isprime from to p =
     mark_threads (int num_threads) from to p (map int [0..<num_threads]) (isprime, 0)"

subsection \<open>\<^verbatim>\<open>main\<close>\<close>

lemma long_range: "- (2 ^ 63) \<le> long x \<and> long x < 2 ^ 63"
proof -
  define m where "m = (x + 2 ^ 63) mod (2 ^ 64 :: int)"
  have "0 \<le> m" "m < 2 ^ 64" by (simp_all add: m_def)
  then have "- (2 ^ 63) \<le> m - 2 ^ 63 \<and> m - 2 ^ 63 < 2 ^ 63" by simp
  then show ?thesis by (simp add: long_def m_def)
qed

lemma long_id: "- (2 ^ 63) \<le> x \<Longrightarrow> x < 2 ^ 63 \<Longrightarrow> long x = x"
proof -
  assume "- (2 ^ 63) \<le> x" "x < 2 ^ 63"
  then have "0 \<le> x + 2 ^ 63" "x + 2 ^ 63 < 2 ^ 64" by simp_all
  then have "(x + 2 ^ 63) mod 2 ^ 64 = x + 2 ^ 63" by (rule mod_pos_pos_trivial)
  then show ?thesis by (simp add: long_def)
qed

text \<open>The main iteration \<^verbatim>\<open>for (i=2; i*i <= n; i++)\<close>.\<close>

function sieve_loop ::
  "nat \<Rightarrow> int \<Rightarrow> int \<Rightarrow> bool list \<times> int \<Rightarrow> (error + bool list \<times> int) option" where
  "sieve_loop num_threads n i (isprime, nprimes) =
     (if long (i * i) \<le> n then
        (if i < 0 \<or> int (length isprime) \<le> i then Some (Inl (OutOfBounds i))
         else if isprime ! nat i
              then (case mark num_threads isprime (long (i * i)) (long (n + 1)) i of
                      Some (Inr (isprime', c)) \<Rightarrow>
                        sieve_loop num_threads n (long (i + 1)) (isprime', long (nprimes - c))
                    | Some (Inl e) \<Rightarrow> Some (Inl e)
                    | None \<Rightarrow> None)
              else sieve_loop num_threads n (long (i + 1)) (isprime, nprimes))
      else Some (Inr (isprime, nprimes)))"
  by pat_completeness auto

text \<open>The loop ends: the variant decreases although \<^verbatim>\<open>i++\<close> may wrap around.\<close>

definition sieve_loop_variant :: "int \<Rightarrow> int" where
  "sieve_loop_variant i = (if i < 0 then 0 else if i < 2 ^ 63 then 2 ^ 63 - i + 1 else 2 ^ 63 + 2)"

lemma sieve_loop_variant_decreases:
  assumes "0 \<le> i"
  shows "nat (sieve_loop_variant (long (i + 1))) < nat (sieve_loop_variant i)"
proof -
  have r: "- (2 ^ 63) \<le> long (i + 1)" "long (i + 1) < 2 ^ 63" using long_range [of "i + 1"] by auto
  have "sieve_loop_variant (long (i + 1)) < sieve_loop_variant i"
  proof (cases "i + 1 < 2 ^ 63")
    case True
    with assms have "long (i + 1) = i + 1" by (intro long_id) auto
    with True assms show ?thesis by (simp add: sieve_loop_variant_def)
  next
    case False
    show ?thesis
    proof (cases "i < 2 ^ 63")
      case True
      with False have "i + 1 = 2 ^ 63" by simp
      then have "long (i + 1) = - (2 ^ 63)" by (simp add: long_def)
      with True assms show ?thesis by (simp add: sieve_loop_variant_def)
    next
      case F: False
      then have "sieve_loop_variant i = 2 ^ 63 + 2" using assms by (simp add: sieve_loop_variant_def)
      moreover have "sieve_loop_variant (long (i + 1)) \<le> 2 ^ 63 + 1"
        using r by (simp add: sieve_loop_variant_def)
      ultimately show ?thesis by simp
    qed
  qed
  moreover have "0 < sieve_loop_variant i" using assms by (simp add: sieve_loop_variant_def)
  ultimately show ?thesis by simp
qed

termination sieve_loop
proof (relation "measure (\<lambda>(num_threads, n, i, s). nat (sieve_loop_variant i))", goal_cases)
  case 1
  show ?case by simp
next
  case (2 num_threads n i isprime nprimes x2 x2a x1 y)
  then show ?case using sieve_loop_variant_decreases [of i] by simp
next
  case (3 num_threads n i isprime nprimes)
  then show ?case using sieve_loop_variant_decreases [of i] by simp
qed

declare sieve_loop.simps [simp del]

text \<open>
  The part of \<^verbatim>\<open>main\<close> that the specification calls \<open>sieve(n)\<close>: the array of \<open>n + 1\<close>
  flags, all set to 1, the counter \<^verbatim>\<open>nprimes = n - 1\<close>, and the main iteration from
  \<open>i = 2\<close>. The allocation is taken to succeed.
\<close>

definition init_isprime :: "int \<Rightarrow> bool list" where
  "init_isprime n = replicate (nat (long (n + 1))) True"

definition sieve :: "nat \<Rightarrow> int \<Rightarrow> (error + int) option" where
  "sieve num_threads n =
     (case sieve_loop num_threads n 2 (init_isprime n, long (n - 1)) of
        Some (Inr (isprime, nprimes)) \<Rightarrow> Some (Inr nprimes)
      | Some (Inl e) \<Rightarrow> Some (Inl e)
      | None \<Rightarrow> None)"

text \<open>
  The whole of \<^verbatim>\<open>main\<close>. Its arguments are the name of the program and the values that
  \<^verbatim>\<open>atol\<close> gives for the other command-line arguments, as 64-bit words. The guard
  \<^verbatim>\<open>n > (1ul << 31)\<close> compares \<open>n\<close> as an unsigned number. What the program does to its
  environment is the list of events; the line with the elapsed time is left out.
\<close>

datatype event = Stderr string | Malloc int | Free | Stdout_primes int int

datatype exit_status = EXIT_SUCCESS | EXIT_FAILURE

datatype outcome = Exit exit_status | Undefined error

definition main :: "nat \<Rightarrow> string \<Rightarrow> 64 word list \<Rightarrow> (event list \<times> outcome) option" where
  "main num_threads argv0 args =
     (if 1 < length args
      then Some ([Stderr (''Usage: '' @ argv0 @ '' [n]'' @ [CHR 0x0A])], Exit EXIT_FAILURE)
      else
        let n = (case args of [] \<Rightarrow> (1000000 :: 64 word) | a # _ \<Rightarrow> a) in
        if 2 ^ 31 < uint n
        then Some ([Stderr (''FATAL: n too large'' @ [CHR 0x0A])], Exit EXIT_FAILURE)
        else
          (case sieve num_threads (sint n) of
             Some (Inr nprimes) \<Rightarrow>
               Some ([Malloc (sint n + 1), Free, Stdout_primes nprimes (sint n)], Exit EXIT_SUCCESS)
           | Some (Inl e) \<Rightarrow> Some ([Malloc (sint n + 1)], Undefined e)
           | None \<Rightarrow> None))"

section \<open>Division and alignment\<close>

lemma cdiv_nonneg: "0 \<le> a \<Longrightarrow> 0 < b \<Longrightarrow> cdiv a b = a div b"
  by (cases "a = 0") (simp_all add: cdiv_def)

lemma cdiv_nonpos: "a \<le> 0 \<Longrightarrow> 0 < b \<Longrightarrow> cdiv a b = - ((- a) div b)"
  by (cases "a = 0") (simp_all add: cdiv_def)

lemma cdiv_mono: "a \<le> a' \<Longrightarrow> 0 < b \<Longrightarrow> cdiv a b \<le> cdiv a' b"
proof -
  assume le: "a \<le> a'" and b: "0 < b"
  consider "0 \<le> a" | "a' \<le> 0" | "a < 0" "0 < a'" by linarith
  then show ?thesis
  proof cases
    case 1
    with le b show ?thesis by (simp add: cdiv_nonneg zdiv_mono1)
  next
    case 2
    with le b show ?thesis by (simp add: cdiv_nonpos zdiv_mono1)
  next
    case 3
    have "cdiv a b \<le> 0" using 3 b by (simp add: cdiv_nonpos pos_imp_zdiv_nonneg_iff)
    moreover have "0 \<le> cdiv a' b" using 3 b by (simp add: cdiv_nonneg pos_imp_zdiv_nonneg_iff)
    ultimately show ?thesis by simp
  qed
qed

lemma align_ge: "0 < p \<Longrightarrow> m \<le> cdiv (m + p - 1) p * p"
proof (cases "0 \<le> m + p - 1")
  case True
  assume p: "0 < p"
  have "(m + p - 1) mod p < p" using p by simp
  moreover have "(m + p - 1) div p * p = (m + p - 1) - (m + p - 1) mod p"
    by (simp add: minus_mod_eq_div_mult)
  ultimately have "m \<le> (m + p - 1) div p * p" by linarith
  then show ?thesis using True p by (simp add: cdiv_nonneg)
next
  case False
  assume p: "0 < p"
  have "(- (m + p - 1)) div p * p \<le> - (m + p - 1)"
    using p by (simp add: minus_mod_eq_div_mult [symmetric])
  then show ?thesis using False p by (simp add: cdiv_nonpos)
qed

lemma align_least:
  "0 < p \<Longrightarrow> 0 \<le> m \<Longrightarrow> m \<le> i \<Longrightarrow> p dvd i \<Longrightarrow> cdiv (m + p - 1) p * p \<le> i"
proof -
  assume p: "0 < p" and m: "0 \<le> m" and mi: "m \<le> i" and d: "p dvd i"
  from d obtain k where k: "i = p * k" ..
  have "(m + p - 1) div p \<le> (i + p - 1) div p" using mi p by (intro zdiv_mono1) auto
  also have "(i + p - 1) div p = k"
  proof -
    have "(p - 1 + p * k) div p = k + (p - 1) div p" using p by simp
    moreover have "(p - 1) div p = 0" using p by (simp add: div_pos_pos_trivial)
    ultimately show ?thesis using k by (simp add: algebra_simps)
  qed
  finally show ?thesis using p m k by (simp add: cdiv_nonneg mult.commute)
qed

section \<open>What the loop of one thread does\<close>

text \<open>
  \<open>strike_set a S\<close> is the array \<open>a\<close> with the flags at the indices in \<open>S\<close> cleared, and
  \<open>mults lo hi p\<close> are the multiples of \<open>p\<close> in \<open>{lo, ..., hi - 1}\<close>.
\<close>

definition strike_set :: "bool list \<Rightarrow> int set \<Rightarrow> bool list" where
  "strike_set a S = map (\<lambda>i. a ! i \<and> int i \<notin> S) [0..<length a]"

definition mults :: "int \<Rightarrow> int \<Rightarrow> int \<Rightarrow> int set" where
  "mults lo hi p = {x. lo \<le> x \<and> x < hi \<and> p dvd x}"

lemma length_strike_set [simp]: "length (strike_set a S) = length a"
  by (simp add: strike_set_def)

lemma nth_strike_set [simp]: "i < length a \<Longrightarrow> strike_set a S ! i = (a ! i \<and> int i \<notin> S)"
  by (simp add: strike_set_def)

lemma strike_set_empty [simp]: "strike_set a {} = a"
  by (simp add: list_eq_iff_nth_eq)

lemma strike_set_twice: "strike_set (strike_set a S) T = strike_set a (S \<union> T)"
  by (auto simp: list_eq_iff_nth_eq)

lemma finite_mults [simp]: "finite (mults lo hi p)"
  by (rule finite_subset [of _ "{lo..<hi}"]) (auto simp: mults_def)

lemma mults_empty [simp]: "hi \<le> lo \<Longrightarrow> mults lo hi p = {}"
  by (auto simp: mults_def)

lemma mults_step:
  assumes "0 < p" "p dvd x" "x < hi"
  shows "mults x hi p = insert x (mults (x + p) hi p)"
proof -
  have "x + p \<le> y" if "x \<le> y" "y \<noteq> x" "p dvd y" for y
  proof -
    from that assms have "p dvd (y - x)" "0 < y - x" by auto
    then have "p \<le> y - x" by (rule zdvd_imp_le)
    then show ?thesis by simp
  qed
  then show ?thesis using assms by (auto simp: mults_def)
qed

lemma mark_loop_spec:
  assumes "0 < p" "p dvd x" "0 \<le> x" "hi \<le> int (length a)" "hi + p \<le> 2 ^ 63"
    and "0 \<le> c" "c + int (card {i \<in> mults x hi p. a ! nat i}) < 2 ^ 63"
  shows "mark_loop a x hi p c =
           Some (Inr (strike_set a (mults x hi p),
                      c + int (card {i \<in> mults x hi p. a ! nat i})))"
  using assms
proof (induction "nat (hi - x)" arbitrary: x a c rule: less_induct)
  case less
  show ?case
  proof (cases "x < hi")
    case False
    then show ?thesis by (subst mark_loop.simps) simp
  next
    case True
    define a' where "a' = a[nat x := False]"
    define c' where "c' = (if a ! nat x then c + 1 else c)"
    have inb: "0 \<le> x" "x < int (length a)" using True less.prems by auto
    have xp: "long (x + p) = x + p" using True less.prems by (intro long_id) auto
    have M: "mults x hi p = insert x (mults (x + p) hi p)"
      using less.prems True by (intro mults_step)
    have notin: "x \<notin> mults (x + p) hi p" using less.prems by (simp add: mults_def)
    have same: "{i \<in> mults (x + p) hi p. a' ! nat i} = {i \<in> mults (x + p) hi p. a ! nat i}"
      using inb less.prems by (auto simp: a'_def nth_list_update mults_def)
    have cnt: "c' + int (card {i \<in> mults (x + p) hi p. a' ! nat i})
                = c + int (card {i \<in> mults x hi p. a ! nat i})"
    proof (cases "a ! nat x")
      case True
      then have "{i \<in> mults x hi p. a ! nat i} = insert x {i \<in> mults (x + p) hi p. a ! nat i}"
        unfolding M by auto
      then show ?thesis using True notin by (simp add: same c'_def)
    next
      case False
      then have "{i \<in> mults x hi p. a ! nat i} = {i \<in> mults (x + p) hi p. a ! nat i}"
        unfolding M by auto
      then show ?thesis using False by (simp add: same c'_def)
    qed
    have c': "0 \<le> c'" "c' < 2 ^ 63"
      using less.prems(6,7) cnt by (auto simp: c'_def)
    have step: "mark_loop a x hi p c = mark_loop a' (x + p) hi p c'"
    proof (cases "a ! nat x")
      case True
      with c' have "long (c + 1) = c + 1" by (intro long_id) (auto simp: c'_def)
      with True show ?thesis
        using \<open>x < hi\<close> inb xp by (subst mark_loop.simps) (simp add: a'_def c'_def)
    next
      case False
      then have "a' = a" using list_update_id [of a "nat x"] by (simp add: a'_def)
      then show ?thesis
        using False \<open>x < hi\<close> inb xp by (subst mark_loop.simps) (simp add: c'_def)
    qed
    have IH: "mark_loop a' (x + p) hi p c' =
           Some (Inr (strike_set a' (mults (x + p) hi p),
                      c' + int (card {i \<in> mults (x + p) hi p. a' ! nat i})))"
      using less.prems True c' cnt by (intro less.hyps) (auto simp: a'_def)
    have arr: "strike_set a' (mults (x + p) hi p) = strike_set a (mults x hi p)"
      using inb by (auto simp: list_eq_iff_nth_eq a'_def M nth_list_update)
    show ?thesis unfolding step IH arr cnt ..
  qed
qed

section \<open>The partition among the threads\<close>

text \<open>
  The bounds of the blocks as the specification writes them, over the integers and
  with integer division: \<open>subFrom = from + ((to-from) * id) / W\<close> and
  \<open>subTo = from + ((to-from) * (id+1)) / W\<close> (\<open>id\<close> is written \<open>k\<close> below). The bounds \<open>my_from\<close> and \<open>my_to\<close> that the
  program computes are these whenever the product \<open>(to - from) * W\<close> fits a \<^verbatim>\<open>long\<close>.
\<close>

definition subFrom :: "int \<Rightarrow> int \<Rightarrow> int \<Rightarrow> int \<Rightarrow> int" where
  "subFrom W from to k = from + ((to - from) * k) div W"

definition subTo :: "int \<Rightarrow> int \<Rightarrow> int \<Rightarrow> int \<Rightarrow> int" where
  "subTo W from to k = from + ((to - from) * (k + 1)) div W"

lemma subTo_eq_subFrom: "subTo W f t k = subFrom W f t (k + 1)"
  by (simp add: subTo_def subFrom_def)

lemma subFrom_0 [simp]: "subFrom W f t 0 = f"
  by (simp add: subFrom_def)

lemma subFrom_last: "0 < W \<Longrightarrow> subFrom W f t W = t"
  by (simp add: subFrom_def)

lemma subFrom_mono:
  "0 < W \<Longrightarrow> j \<le> k \<Longrightarrow> f \<le> t \<Longrightarrow> subFrom W f t j \<le> subFrom W f t k"
  unfolding subFrom_def by (simp add: zdiv_mono1 mult_left_mono)

lemma subFrom_ge: "0 < W \<Longrightarrow> 0 \<le> k \<Longrightarrow> f \<le> t \<Longrightarrow> f \<le> subFrom W f t k"
  using subFrom_mono [of W 0 k f t] by simp

lemma subFrom_le: "0 < W \<Longrightarrow> k \<le> W \<Longrightarrow> f \<le> t \<Longrightarrow> subFrom W f t k \<le> t"
  using subFrom_mono [of W k W f t] by (simp add: subFrom_last)

lemma cint_id: "- (2 ^ 31) \<le> x \<Longrightarrow> x < 2 ^ 31 \<Longrightarrow> cint x = x"
proof -
  assume "- (2 ^ 31) \<le> x" "x < 2 ^ 31"
  then have "0 \<le> x + 2 ^ 31" "x + 2 ^ 31 < 2 ^ 32" by simp_all
  then have "(x + 2 ^ 31) mod 2 ^ 32 = x + 2 ^ 31" by (rule mod_pos_pos_trivial)
  then show ?thesis by (simp add: cint_def)
qed

lemma block_bound_exact:
  assumes "0 < W" "f \<le> t" "0 \<le> k" "k \<le> W" "(t - f) * W < 2 ^ 63"
    and "- (2 ^ 63) \<le> f" "t < 2 ^ 63"
  shows "long (f + long (cdiv (long (long (t - f) * k)) W)) = subFrom W f t k"
proof -
  let ?n = "t - f"
  have "?n * 1 \<le> ?n * W" using assms by (intro mult_left_mono) auto
  then have n: "0 \<le> ?n" "?n < 2 ^ 63" using assms by auto
  then have 1: "long ?n = ?n" by (intro long_id) auto
  have "?n * k \<le> ?n * W" using assms by (intro mult_left_mono) auto
  moreover have "0 \<le> ?n * k" using assms n by simp
  ultimately have 2: "long (?n * k) = ?n * k" using assms(5) by (intro long_id) linarith+
  have 3: "cdiv (?n * k) W = (?n * k) div W" using \<open>0 \<le> ?n * k\<close> assms by (intro cdiv_nonneg)
  have "f \<le> subFrom W f t k" "subFrom W f t k \<le> t"
    using assms by (auto intro: subFrom_ge subFrom_le)
  then have q: "0 \<le> (?n * k) div W" "(?n * k) div W \<le> ?n" by (auto simp: subFrom_def)
  with n have 4: "long ((?n * k) div W) = (?n * k) div W" by (intro long_id) auto
  have 5: "long (f + (?n * k) div W) = f + (?n * k) div W" using q assms by (intro long_id) auto
  show ?thesis by (simp add: 1 2 3 4 5 subFrom_def)
qed

lemma my_from_exact:
  assumes "0 < W" "f \<le> t" "0 \<le> k" "k \<le> W" "(t - f) * W < 2 ^ 63"
    and "- (2 ^ 63) \<le> f" "t < 2 ^ 63"
  shows "my_from W f t k = subFrom W f t k"
  unfolding my_from_def using assms by (rule block_bound_exact)

lemma my_to_exact:
  assumes "0 < W" "W < 2 ^ 31" "f \<le> t" "0 \<le> k" "k < W" "(t - f) * W < 2 ^ 63"
    and "- (2 ^ 63) \<le> f" "t < 2 ^ 63"
  shows "my_to W f t k = subTo W f t k"
proof -
  have "cint (k + 1) = k + 1" using assms by (intro cint_id) auto
  then have "my_to W f t k = long (f + long (cdiv (long (long (t - f) * (k + 1))) W))"
    by (simp add: my_to_def)
  also have "\<dots> = subFrom W f t (k + 1)" using assms by (intro block_bound_exact) auto
  finally show ?thesis by (simp add: subTo_eq_subFrom)
qed

lemma mults_align:
  assumes "0 < p" "0 \<le> m"
  shows "mults (cdiv (m + p - 1) p * p) hi p = mults m hi p"
  using align_ge [of p m] align_least [of p m] assms
  by (auto simp: mults_def)

lemma align_exact:
  assumes "0 < p" "0 \<le> m" "m + p < 2 ^ 63"
  shows "long (long (cdiv (long (long (m + p) - 1)) p) * p) = cdiv (m + p - 1) p * p"
proof -
  have 1: "long (m + p) = m + p" using assms by (intro long_id) auto
  have 2: "long (m + p - 1) = m + p - 1" using assms by (intro long_id) auto
  have q: "cdiv (m + p - 1) p = (m + p - 1) div p" using assms by (intro cdiv_nonneg) auto
  have q0: "0 \<le> (m + p - 1) div p" using assms by (simp add: pos_imp_zdiv_nonneg_iff)
  have "0 \<le> (m + p - 1) mod p" using assms by simp
  then have "(m + p - 1) div p * p \<le> m + p - 1"
    by (simp add: minus_mod_eq_div_mult [symmetric])
  moreover have "(m + p - 1) div p * 1 \<le> (m + p - 1) div p * p"
    using q0 assms by (intro mult_left_mono) auto
  ultimately have b: "(m + p - 1) div p \<le> m + p - 1" by simp
  have 3: "long ((m + p - 1) div p) = (m + p - 1) div p" using q0 b assms by (intro long_id) auto
  have "0 \<le> (m + p - 1) div p * p" using q0 assms by simp
  with \<open>(m + p - 1) div p * p \<le> m + p - 1\<close>
  have 4: "long ((m + p - 1) div p * p) = (m + p - 1) div p * p"
    using assms by (intro long_id) auto
  show ?thesis by (simp add: 1 2 q 3 4)
qed

text \<open>The multiples of \<open>p\<close> in the block of thread \<open>k\<close>.\<close>

definition part :: "int \<Rightarrow> int \<Rightarrow> int \<Rightarrow> int \<Rightarrow> int \<Rightarrow> int set" where
  "part W f t p k = mults (subFrom W f t k) (subTo W f t k) p"

lemma finite_part [simp]: "finite (part W f t p k)"
  by (simp add: part_def)

lemma mark_thread_spec:
  assumes "0 < p" "0 < W" "W < 2 ^ 31" "0 \<le> f" "f \<le> t" "t \<le> int (length b)" "0 \<le> k" "k < W"
    and "(t - f) * W < 2 ^ 63" "t + p < 2 ^ 63"
    and "0 \<le> c" "c + int (card {i \<in> part W f t p k. b ! nat i}) < 2 ^ 63"
  shows "mark_thread W f t p k (b, c) =
           Some (Inr (strike_set b (part W f t p k),
                      c + int (card {i \<in> part W f t p k. b ! nat i})))"
proof -
  let ?m = "subFrom W f t k" and ?h = "subTo W f t k"
  let ?x = "cdiv (?m + p - 1) p * p"
  have t: "t < 2 ^ 63" using assms by simp
  have mf: "my_from W f t k = ?m" using assms t by (intro my_from_exact) auto
  have mt: "my_to W f t k = ?h" using assms t by (intro my_to_exact) auto
  have m: "0 \<le> ?m" "?m \<le> t" using subFrom_ge [of W k f t] subFrom_le [of W k f t] assms by auto
  have h: "?h \<le> t" using subFrom_le [of W "k + 1" f t] assms by (simp add: subTo_eq_subFrom)
  have st: "long (long (cdiv (long (long (?m + p) - 1)) p) * p) = ?x"
    using assms m by (intro align_exact) auto
  have x: "0 \<le> ?x" using align_ge [of p ?m] m assms by simp
  have al: "mults ?x ?h p = part W f t p k" using assms m by (simp add: mults_align part_def)
  have "mark_thread W f t p k (b, c) = mark_loop b ?x ?h p c"
    using assms by (simp add: mark_thread_def mf mt st)
  also have "\<dots> = Some (Inr (strike_set b (mults ?x ?h p),
                      c + int (card {i \<in> mults ?x ?h p. b ! nat i})))"
  proof (rule mark_loop_spec)
    show "p dvd ?x" by simp
    show "?h \<le> int (length b)" using h assms by simp
    show "?h + p \<le> 2 ^ 63" using h assms by simp
    show "c + int (card {i \<in> mults ?x ?h p. b ! nat i}) < 2 ^ 63" using assms by (simp add: al)
  qed (use assms x in auto)
  finally show ?thesis by (simp add: al)
qed

lemma part_disjoint:
  assumes "0 < W" "f \<le> t" "j \<noteq> k"
  shows "part W f t p j \<inter> part W f t p k = {}"
proof -
  have *: "part W f t p j \<inter> part W f t p k = {}" if "j < k" for j k
  proof -
    from that have "subTo W f t j \<le> subFrom W f t k"
      using subFrom_mono [of W "j + 1" k f t] assms by (simp add: subTo_eq_subFrom)
    then show ?thesis by (auto simp: part_def mults_def)
  qed
  from assms(3) consider "j < k" | "k < j" by linarith
  then show ?thesis using * [of j k] * [of k j] by cases auto
qed

lemma part_Union_upto:
  assumes "0 < W" "f \<le> t"
  shows "(\<Union>k\<in>{0..<int n}. part W f t p k) = mults f (subFrom W f t (int n)) p"
proof (induction n)
  case 0
  show ?case by simp
next
  case (Suc n)
  have "{0..<int (Suc n)} = insert (int n) {0..<int n}" by auto
  moreover have "subFrom W f t (int n) \<le> subFrom W f t (int n + 1)"
    using assms by (intro subFrom_mono) auto
  moreover have "f \<le> subFrom W f t (int n)" using assms by (intro subFrom_ge) auto
  ultimately show ?case using Suc
    by (auto simp: part_def mults_def subTo_eq_subFrom add.commute)
qed

lemma part_Union_all:
  assumes "f \<le> t" "0 < W"
  shows "(\<Union>k\<in>{0..<int W}. part (int W) f t p k) = mults f t p"
  using part_Union_upto [of "int W" f t p W] assms by (simp add: subFrom_last)

lemma part_in_bounds:
  assumes "0 < W" "0 \<le> f" "f \<le> t" "0 \<le> k" "k < W" "x \<in> part W f t p k"
  shows "f \<le> x \<and> x < t"
  using assms subFrom_ge [of W k f t] subFrom_le [of W "k + 1" f t]
  by (auto simp: part_def mults_def subTo_eq_subFrom)

lemma mark_threads_spec:
  assumes "0 < p" "0 < W" "W < 2 ^ 31" "0 \<le> f" "f \<le> t" "(t - f) * W < 2 ^ 63" "t + p < 2 ^ 63"
    and "t \<le> int (length b)" "distinct ids" "\<forall>k\<in>set ids. 0 \<le> k \<and> k < W"
    and "0 \<le> c" "c + int (card {i \<in> (\<Union>k\<in>set ids. part W f t p k). b ! nat i}) < 2 ^ 63"
  shows "mark_threads W f t p ids (b, c) =
           Some (Inr (strike_set b (\<Union>k\<in>set ids. part W f t p k),
                      c + int (card {i \<in> (\<Union>k\<in>set ids. part W f t p k). b ! nat i})))"
  using assms(8-)
proof (induction ids arbitrary: b c)
  case Nil
  show ?case by simp
next
  case (Cons k ids)
  let ?P = "part W f t p k" and ?U = "\<Union>j\<in>set ids. part W f t p j"
  define b' where "b' = strike_set b ?P"
  define c' where "c' = c + int (card {i \<in> ?P. b ! nat i})"
  have k: "0 \<le> k" "k < W" using Cons.prems by auto
  have "?P \<inter> part W f t p j = {}" if "j \<in> set ids" for j
    using that assms(2,5) Cons.prems(2) by (intro part_disjoint) auto
  then have disj: "?P \<inter> ?U = {}" by blast
  have inb: "0 \<le> x \<and> x < int (length b)" if "x \<in> ?U" for x
    using that part_in_bounds [of W f t _ x p] assms(2,4,5) Cons.prems(1,3) by fastforce
  have "b' ! nat x = b ! nat x" if "x \<in> ?U" for x
  proof -
    from that disj have "x \<notin> ?P" by blast
    moreover from inb [OF that] have "nat x < length b" "int (nat x) = x" by auto
    ultimately show ?thesis by (simp add: b'_def)
  qed
  then have same: "{i \<in> ?U. b' ! nat i} = {i \<in> ?U. b ! nat i}" by blast
  have fin: "finite ?P" "finite ?U" by auto
  have split: "{i \<in> (\<Union>j\<in>set (k # ids). part W f t p j). b ! nat i}
                 = {i \<in> ?P. b ! nat i} \<union> {i \<in> ?U. b ! nat i}"
    by auto
  have "card ({i \<in> ?P. b ! nat i} \<union> {i \<in> ?U. b ! nat i})
          = card {i \<in> ?P. b ! nat i} + card {i \<in> ?U. b ! nat i}"
    using fin disj by (intro card_Un_disjoint) auto
  then have cnt: "c' + int (card {i \<in> ?U. b' ! nat i})
          = c + int (card {i \<in> (\<Union>j\<in>set (k # ids). part W f t p j). b ! nat i})"
    unfolding split same c'_def by simp
  have c': "0 \<le> c'" "c' + int (card {i \<in> ?U. b' ! nat i}) < 2 ^ 63"
    using Cons.prems(4,5) cnt by (auto simp: c'_def)
  then have "c + int (card {i \<in> ?P. b ! nat i}) < 2 ^ 63" by (simp add: c'_def)
  then have thread: "mark_thread W f t p k (b, c) = Some (Inr (b', c'))"
    using assms(1-7) Cons.prems(1,4) k unfolding b'_def c'_def
    by (intro mark_thread_spec) auto
  have rest: "mark_threads W f t p ids (b', c') =
           Some (Inr (strike_set b' ?U, c' + int (card {i \<in> ?U. b' ! nat i})))"
    using Cons.prems c' by (intro Cons.IH) (auto simp: b'_def)
  have arr: "strike_set b' ?U = strike_set b (\<Union>j\<in>set (k # ids). part W f t p j)"
    by (simp add: b'_def strike_set_twice)
  have "mark_threads W f t p (k # ids) (b, c) = mark_threads W f t p ids (b', c')"
    using thread by simp
  then show ?case unfolding rest arr cnt .
qed

section \<open>What \<^verbatim>\<open>mark\<close> does\<close>

text \<open>
  \<open>strike a lo hi p\<close> clears the flags of the multiples of \<open>p\<close> in \<open>{lo, ..., hi - 1}\<close>.
\<close>

definition strike :: "bool list \<Rightarrow> int \<Rightarrow> int \<Rightarrow> int \<Rightarrow> bool list" where
  "strike a lo hi p =
     map (\<lambda>i. a ! i \<and> \<not> (lo \<le> int i \<and> int i < hi \<and> p dvd int i)) [0..<length a]"

lemma strike_eq_strike_set: "strike a lo hi p = strike_set a (mults lo hi p)"
  by (simp add: strike_def strike_set_def mults_def)

lemma length_strike [simp]: "length (strike a lo hi p) = length a"
  by (simp add: strike_def)

lemma nth_strike:
  "i < length a \<Longrightarrow> strike a lo hi p ! i = (a ! i \<and> \<not> (lo \<le> int i \<and> int i < hi \<and> p dvd int i))"
  by (simp add: strike_def)

lemma card_mults_le:
  assumes "f \<le> t"
  shows "int (card {x \<in> mults f t p. P x}) \<le> t - f"
proof -
  have "card {x \<in> mults f t p. P x} \<le> card {f..<t}"
    by (intro card_mono) (auto simp: mults_def)
  then show ?thesis using assms by simp
qed

text \<open>
  The result does not depend on the order in which the threads run: any list that
  names every thread once gives the same array and the same count.
\<close>

lemma mark_schedule:
  assumes "0 < p" "0 < W" "int W < 2 ^ 31" "0 \<le> f" "f \<le> t" "t \<le> int (length a)"
    and "(t - f) * int W < 2 ^ 63" "t + p < 2 ^ 63"
    and "distinct ids" "set ids = {0..<int W}"
  shows "mark_threads (int W) f t p ids (a, 0) =
           Some (Inr (strike a f t p, int (card {x \<in> mults f t p. a ! nat x})))"
proof -
  have U: "(\<Union>k\<in>set ids. part (int W) f t p k) = mults f t p"
    using assms by (simp add: part_Union_all)
  have "(t - f) * 1 \<le> (t - f) * int W" using assms by (intro mult_left_mono) auto
  then have "t - f < 2 ^ 63" using assms by simp
  with card_mults_le [OF assms(5), of p "\<lambda>x. a ! nat x"]
  have "0 + int (card {i \<in> (\<Union>k\<in>set ids. part (int W) f t p k). a ! nat i}) < 2 ^ 63"
    unfolding U by simp
  then have "mark_threads (int W) f t p ids (a, 0) =
     Some (Inr (strike_set a (\<Union>k\<in>set ids. part (int W) f t p k),
                0 + int (card {i \<in> (\<Union>k\<in>set ids. part (int W) f t p k). a ! nat i})))"
    using assms by (intro mark_threads_spec) auto
  then show ?thesis unfolding U by (simp add: strike_eq_strike_set)
qed

lemma mark_spec:
  assumes "0 < p" "0 < W" "int W < 2 ^ 31" "0 \<le> f" "f \<le> t" "t \<le> int (length a)"
    and "(t - f) * int W < 2 ^ 63" "t + p < 2 ^ 63"
  shows "mark W a f t p =
           Some (Inr (strike a f t p, int (card {x \<in> mults f t p. a ! nat x})))"
proof -
  have "set (map int [0..<W]) = {0..<int W}"
    by (auto simp: image_iff) (metis atLeastLessThan_iff nat_less_iff nat_0_le zero_le)
  moreover have "distinct (map int [0..<W])" by (simp add: distinct_map)
  ultimately show ?thesis unfolding mark_def using assms by (intro mark_schedule)
qed

section \<open>Flags are only ever cleared\<close>

text \<open>
  \<open>below a' a\<close>: the arrays have the same length and every flag set in \<open>a'\<close> is set
  in \<open>a\<close>. The lemmas of this section need no precondition: they hold for every call
  that returns.
\<close>

lemmas mark_loop_raw = mark_loop.raw_induct
      [where P = "\<lambda>a x hi p c r. Q a x hi p c r"
        and xa = "((((a, x), hi), p), c)" and y = r for Q a x hi p c r, unfolded prod.case]

definition below :: "bool list \<Rightarrow> bool list \<Rightarrow> bool" where
  "below a' a \<longleftrightarrow> length a' = length a \<and> (\<forall>k<length a. a' ! k \<longrightarrow> a ! k)"

lemma below_refl [simp]: "below a a"
  by (simp add: below_def)

lemma below_trans: "below a'' a' \<Longrightarrow> below a' a \<Longrightarrow> below a'' a"
  by (auto simp: below_def)

lemma below_update: "below (a[k := False]) a"
proof (cases "k < length a")
  case True
  then show ?thesis by (auto simp: below_def nth_list_update split: if_splits)
next
  case False
  then show ?thesis by (simp add: list_update_beyond)
qed

lemma mark_loop_mono:
  assumes "mark_loop a x hi p c = Some r"
  shows "\<forall>a' c'. r = Inr (a', c') \<longrightarrow> below a' a"
proof (rule mark_loop_raw [where Q = "\<lambda>a x hi p c r. \<forall>a' c'. r = Inr (a', c') \<longrightarrow> below a' a",
      OF _ assms], goal_cases)
  case (1 f a x hi p c r)
  show ?case
  proof (intro allI impI)
    fix a' c' assume r: "r = Inr (a', c')"
    consider "\<not> x < hi" | "x < hi" "a ! nat x" | "x < hi" "\<not> a ! nat x" by blast
    then show "below a' a"
    proof cases
      case 1
      with \<open>_ = Some r\<close> r show ?thesis by simp
    next
      case 2
      have "\<not> (x < 0 \<or> int (length a) \<le> x)" using 1(2) 2 r by (auto split: if_splits)
      with 1(2) 2 r
      have "f (a[nat x := False]) (long (x + p)) hi p (long (c + 1)) = Some (Inr (a', c'))"
        by simp
      from 1(1) [OF this] have "below a' (a[nat x := False])" by auto
      then show ?thesis using below_trans [OF _ below_update] by fastforce
    next
      case 3
      have "\<not> (x < 0 \<or> int (length a) \<le> x)" using 1(2) 3 r by (auto split: if_splits)
      with 1(2) 3 r have "f a (long (x + p)) hi p c = Some (Inr (a', c'))"
        by simp
      from 1(1) [OF this] show ?thesis by auto
    qed
  qed
qed

lemma mark_thread_mono:
  assumes "mark_thread W f t p k (a, c) = Some (Inr (a', c'))"
  shows "below a' a"
  using assms mark_loop_mono unfolding mark_thread_def by (fastforce split: if_splits)

lemma mark_threads_mono:
  assumes "mark_threads W f t p ids (a, c) = Some (Inr (a', c'))"
  shows "below a' a"
  using assms
proof (induction ids arbitrary: a c)
  case Nil
  then show ?case by simp
next
  case (Cons k ids)
  from Cons.prems obtain b d where
    1: "mark_thread W f t p k (a, c) = Some (Inr (b, d))" and
    2: "mark_threads W f t p ids (b, d) = Some (Inr (a', c'))"
    by (auto split: option.splits sum.splits)
  from mark_thread_mono [OF 1] Cons.IH [OF 2] show ?case
    using below_trans by blast
qed

lemma mark_mono:
  assumes "mark W a f t p = Some (Inr (a', c'))"
  shows "below a' a"
  using assms mark_threads_mono unfolding mark_def by blast

lemma sieve_loop_mono:
  assumes "sieve_loop W n i (a, c) = Some (Inr (a', c'))"
  shows "below a' a"
  using assms
proof (induction W n i "(a, c)" arbitrary: a c rule: sieve_loop.induct)
  case (1 W n i a c)
  show ?case
  proof (cases "long (i * i) \<le> n")
    case False
    with "1.prems" show ?thesis by (simp add: sieve_loop.simps)
  next
    case True
    with "1.prems" have inb: "\<not> (i < 0 \<or> int (length a) \<le> i)"
      by (auto simp: sieve_loop.simps [of W n i] split: if_splits)
    show ?thesis
    proof (cases "a ! nat i")
      case False
      with True inb "1.prems" have "sieve_loop W n (long (i + 1)) (a, c) = Some (Inr (a', c'))"
        by (simp add: sieve_loop.simps [of W n i])
      with "1.hyps"(2) True inb False show ?thesis by simp
    next
      case T: True
      with True inb "1.prems" obtain b d where
        m: "mark W a (long (i * i)) (long (n + 1)) i = Some (Inr (b, d))" and
        r: "sieve_loop W n (long (i + 1)) (b, long (c - d)) = Some (Inr (a', c'))"
        by (auto simp: sieve_loop.simps [of W n i] split: option.splits sum.splits)
      from "1.hyps"(1) [OF True inb T m refl refl r] mark_mono [OF m]
      show ?thesis using below_trans by blast
    qed
  qed
qed

section \<open>The main iteration computes the prime-counting function\<close>

definition trues :: "bool list \<Rightarrow> int set" where
  "trues a = {x. 0 \<le> x \<and> x < int (length a) \<and> a ! nat x}"

lemma finite_trues [simp]: "finite (trues a)"
  by (rule finite_subset [of _ "{0..<int (length a)}"]) (auto simp: trues_def)

lemma trues_strike:
  assumes "0 \<le> f"
  shows "trues (strike a f t p) = trues a - mults f t p"
  using assms by (auto simp: trues_def nth_strike mults_def)

lemma hits_eq:
  assumes "0 \<le> f" "t \<le> int (length a)"
  shows "{x \<in> mults f t p. a ! nat x} = trues a \<inter> mults f t p"
  using assms by (auto simp: trues_def mults_def)

lemma card_trues_strike:
  assumes "0 \<le> f" "t \<le> int (length a)"
  shows "int (card (trues (strike a f t p)))
           = int (card (trues a)) - int (card {x \<in> mults f t p. a ! nat x})"
proof -
  have "card (trues a - mults f t p) = card (trues a) - card (trues a \<inter> mults f t p)"
    by (simp add: card_Diff_subset_Int)
  moreover have "card (trues a \<inter> mults f t p) \<le> card (trues a)"
    by (intro card_mono) auto
  ultimately show ?thesis using assms by (simp add: trues_strike hits_eq)
qed

text \<open>No divisor \<open>d\<close> with \<open>2 \<le> d < i\<close> and \<open>d * d \<le> x\<close>.\<close>

definition nodiv :: "int \<Rightarrow> int \<Rightarrow> bool" where
  "nodiv i x \<longleftrightarrow> \<not> (\<exists>d. 2 \<le> d \<and> d < i \<and> d * d \<le> x \<and> d dvd x)"

definition sieved :: "int \<Rightarrow> int \<Rightarrow> bool list \<Rightarrow> bool" where
  "sieved n i a \<longleftrightarrow> int (length a) = n + 1 \<and> (\<forall>x. 0 \<le> x \<and> x \<le> n \<longrightarrow> a ! nat x = nodiv i x)"

lemma nodiv_skip:
  assumes "\<not> nodiv i i" "2 \<le> i"
  shows "nodiv (i + 1) x = nodiv i x"
proof -
  from assms obtain d where d: "2 \<le> d" "d < i" "d * d \<le> i" "d dvd i"
    by (auto simp: nodiv_def)
  have "\<exists>e. 2 \<le> e \<and> e < i \<and> e * e \<le> x \<and> e dvd x" if "i * i \<le> x" "i dvd x"
  proof -
    have "i * 1 \<le> i * i" using assms(2) by (intro mult_left_mono) auto
    then have "i \<le> i * i" by simp
    with d that have "d * d \<le> x" by linarith
    moreover from d that have "d dvd x" by auto
    moreover note d
    ultimately show ?thesis by blast
  qed
  moreover have "d < i + 1 \<longleftrightarrow> d < i \<or> d = i" for d :: int by auto
  ultimately show ?thesis unfolding nodiv_def by metis
qed

lemma nodiv_step:
  "nodiv (i + 1) x = (nodiv i x \<and> \<not> (i * i \<le> x \<and> i dvd x) \<or> nodiv i x \<and> i < 2)"
proof -
  have "d < i + 1 \<longleftrightarrow> d < i \<or> d = i" for d :: int by auto
  then show ?thesis unfolding nodiv_def by (metis linorder_not_less)
qed

lemma final_flags:
  assumes "2 \<le> i" "sieved n i a" "\<not> i * i \<le> n" "0 \<le> x \<and> x \<le> n"
  shows "a ! nat x = (\<forall>d. 2 \<le> d \<and> d * d \<le> x \<longrightarrow> \<not> d dvd x)"
proof -
  have "d < i" if "2 \<le> d" "d * d \<le> x" for d
  proof (rule ccontr)
    assume "\<not> d < i"
    with \<open>2 \<le> i\<close> have "i * i \<le> d * d" by (intro mult_mono) auto
    with that assms show False by linarith
  qed
  then show ?thesis using assms(2,4) unfolding nodiv_def sieved_def by blast
qed

lemma sieved_skip:
  assumes "sieved n i a" "2 \<le> i" "i \<le> n" "\<not> a ! nat i"
  shows "sieved n (i + 1) a"
proof -
  from assms have "\<not> nodiv i i" by (simp add: sieved_def)
  then show ?thesis using assms(1,2) by (simp add: sieved_def nodiv_skip)
qed

lemma sieved_mark:
  assumes "sieved n i a" "2 \<le> i"
  shows "sieved n (i + 1) (strike a (i * i) (n + 1) i)"
proof -
  have len: "int (length a) = n + 1" using assms(1) by (simp add: sieved_def)
  have "strike a (i * i) (n + 1) i ! nat x = nodiv (i + 1) x" if x: "0 \<le> x \<and> x \<le> n" for x
  proof -
    from x len have "nat x < length a" by linarith
    then have "strike a (i * i) (n + 1) i ! nat x
        = (a ! nat x \<and> \<not> (i * i \<le> int (nat x) \<and> int (nat x) < n + 1 \<and> i dvd int (nat x)))"
      by (rule nth_strike)
    also have "\<dots> = (nodiv i x \<and> \<not> (i * i \<le> x \<and> i dvd x))"
      using x assms(1) by (simp add: sieved_def)
    also have "\<dots> = nodiv (i + 1) x" using assms(2) by (subst nodiv_step) auto
    finally show ?thesis .
  qed
  then show ?thesis using len by (simp add: sieved_def)
qed

definition final :: "int \<Rightarrow> bool list \<Rightarrow> bool" where
  "final n a \<longleftrightarrow> int (length a) = n + 1 \<and>
     (\<forall>x. 0 \<le> x \<and> x \<le> n \<longrightarrow> a ! nat x = (\<forall>d. 2 \<le> d \<and> d * d \<le> x \<longrightarrow> \<not> d dvd x))"

definition is_prime :: "nat \<Rightarrow> bool" where
  "is_prime k \<longleftrightarrow> 2 \<le> k \<and> (\<forall>d\<in>{2..<k}. \<not> d dvd k)"

definition prime_pi :: "nat \<Rightarrow> nat" where
  "prime_pi n = length (filter is_prime [0..<Suc n])"

lemma prime_pi_card: "prime_pi n = card {k. is_prime k \<and> k \<le> n}"
proof -
  have "{k. is_prime k \<and> k \<le> n} = set (filter is_prime [0..<Suc n])"
    by (auto simp: less_Suc_eq_le simp del: upt_Suc)
  moreover have "distinct (filter is_prime [0..<Suc n])" by (simp del: upt_Suc)
  ultimately have "card {k. is_prime k \<and> k \<le> n} = length (filter is_prime [0..<Suc n])"
    by (simp only: distinct_card)
  then show ?thesis by (simp only: prime_pi_def)
qed

lemma no_small_divisor_iff_prime:
  assumes "2 \<le> x"
  shows "(\<forall>d. 2 \<le> d \<and> d * d \<le> x \<longrightarrow> \<not> d dvd x) \<longleftrightarrow> is_prime (nat x)"
proof
  assume small: "\<forall>d. 2 \<le> d \<and> d * d \<le> x \<longrightarrow> \<not> d dvd x"
  have "\<not> k dvd nat x" if k: "k \<in> {2..<nat x}" for k
  proof
    assume "k dvd nat x"
    then obtain e where e: "nat x = k * e" ..
    with k have "e \<noteq> 0" "e \<noteq> 1" by auto
    then have e2: "2 \<le> e" by simp
    have x: "x = int k * int e" using e assms by (metis int_nat_eq of_nat_mult zero_le_numeral order_trans)
    show False
    proof (cases "k \<le> e")
      case True
      then have "int k * int k \<le> x" unfolding x by (intro mult_left_mono) auto
      moreover have "int k dvd x" unfolding x by simp
      ultimately show False using small k by auto
    next
      case False
      then have "int e * int e \<le> x" unfolding x by (intro mult_right_mono) auto
      moreover have "int e dvd x" unfolding x by simp
      ultimately show False using small e2 by auto
    qed
  qed
  then show "is_prime (nat x)" using assms by (simp add: is_prime_def)
next
  assume p: "is_prime (nat x)"
  show "\<forall>d. 2 \<le> d \<and> d * d \<le> x \<longrightarrow> \<not> d dvd x"
  proof (intro allI impI notI)
    fix d assume d: "2 \<le> d \<and> d * d \<le> x" and dv: "d dvd x"
    have "d * 2 \<le> d * d" using d by (intro mult_left_mono) auto
    with d have "d < x" by linarith
    with d have "nat d \<in> {2..<nat x}" by auto
    moreover have "nat d dvd nat x" using dv d assms by (simp add: nat_dvd_iff)
    ultimately show False using p by (auto simp: is_prime_def)
  qed
qed

lemma final_nth:
  "final n a \<Longrightarrow> 0 \<le> x \<Longrightarrow> x \<le> n \<Longrightarrow>
   a ! nat x = (\<forall>d. 2 \<le> d \<and> d * d \<le> x \<longrightarrow> \<not> d dvd x)"
  by (simp add: final_def)

lemma trues_final:
  assumes "final n a" "1 \<le> n"
  shows "trues a = {0, 1} \<union> int ` {k. is_prime k \<and> k \<le> nat n}"
proof (intro set_eqI iffI)
  fix x assume "x \<in> trues a"
  then have x: "0 \<le> x" "x \<le> n" "a ! nat x" using assms(1) by (auto simp: trues_def final_def)
  show "x \<in> {0, 1} \<union> int ` {k. is_prime k \<and> k \<le> nat n}"
  proof (cases "x < 2")
    case True
    with x show ?thesis by auto
  next
    case False
    then have "is_prime (nat x)"
      using x assms(1) no_small_divisor_iff_prime [of x] by (simp add: final_def)
    moreover have "nat x \<le> nat n" "int (nat x) = x" using x by auto
    ultimately show ?thesis by (metis (mono_tags, lifting) UnI2 image_eqI mem_Collect_eq)
  qed
next
  fix x assume "x \<in> {0, 1} \<union> int ` {k. is_prime k \<and> k \<le> nat n}"
  then consider "x = 0" | "x = 1" | k where "x = int k" "is_prime k" "k \<le> nat n" by auto
  then show "x \<in> trues a"
  proof cases
    case 1
    have "\<not> (2 \<le> d \<and> d * d \<le> 0)" for d :: int
      by (metis mult_le_0_iff not_numeral_le_zero order_trans zero_le_numeral linorder_le_cases)
    then have "\<forall>d. 2 \<le> d \<and> d * d \<le> (0::int) \<longrightarrow> \<not> d dvd 0" by blast
    moreover have "a ! nat 0 = (\<forall>d. 2 \<le> d \<and> d * d \<le> (0::int) \<longrightarrow> \<not> d dvd 0)"
      using assms by (intro final_nth) auto
    ultimately have "a ! nat 0" by blast
    then show ?thesis using assms 1 by (simp add: trues_def final_def)
  next
    case 2
    have "\<not> (2 \<le> d \<and> d * d \<le> 1)" for d :: int
    proof
      assume d: "2 \<le> d \<and> d * d \<le> 1"
      then have "2 * 2 \<le> d * d" by (intro mult_mono) auto
      with d show False by simp
    qed
    then have "\<forall>d. 2 \<le> d \<and> d * d \<le> (1::int) \<longrightarrow> \<not> d dvd 1" by blast
    moreover have "a ! nat 1 = (\<forall>d. 2 \<le> d \<and> d * d \<le> (1::int) \<longrightarrow> \<not> d dvd 1)"
      using assms by (intro final_nth) auto
    ultimately have "a ! nat 1" by blast
    then show ?thesis using assms 2 by (simp add: trues_def final_def)
  next
    case 3
    then have x: "2 \<le> x" "x \<le> n" "0 \<le> x" by (auto simp: is_prime_def)
    then have "a ! nat x" using final_nth [OF assms(1), of x] no_small_divisor_iff_prime [of x] 3
      by simp
    then show ?thesis using assms(1) x by (simp add: trues_def final_def)
  qed
qed

lemma card_trues_final:
  assumes "final n a" "1 \<le> n"
  shows "int (card (trues a)) = 2 + int (prime_pi (nat n))"
proof -
  let ?P = "{k. is_prime k \<and> k \<le> nat n}"
  have fin: "finite ?P" by (rule finite_subset [of _ "{..nat n}"]) auto
  have "{0, 1} \<inter> int ` ?P = {}" by (auto simp: is_prime_def)
  then have "card ({0, 1} \<union> int ` ?P) = card {0, 1 :: int} + card (int ` ?P)"
    using fin by (intro card_Un_disjoint) auto
  also have "card (int ` ?P) = card ?P" by (intro card_image) simp
  finally show ?thesis using trues_final [OF assms] by (simp add: prime_pi_card)
qed

lemma sieve_loop_exit: "\<not> long (i * i) \<le> n \<Longrightarrow> sieve_loop W n i (a, c) = Some (Inr (a, c))"
  by (simp add: sieve_loop.simps [of W n i])

lemma sieve_loop_skip:
  "long (i * i) \<le> n \<Longrightarrow> 0 \<le> i \<Longrightarrow> i < int (length a) \<Longrightarrow> \<not> a ! nat i \<Longrightarrow>
   sieve_loop W n i (a, c) = sieve_loop W n (long (i + 1)) (a, c)"
  by (simp add: sieve_loop.simps [of W n i])

lemma sieve_loop_mark:
  "long (i * i) \<le> n \<Longrightarrow> 0 \<le> i \<Longrightarrow> i < int (length a) \<Longrightarrow> a ! nat i \<Longrightarrow>
   mark W a (long (i * i)) (long (n + 1)) i = Some (Inr (a', k)) \<Longrightarrow>
   sieve_loop W n i (a, c) = sieve_loop W n (long (i + 1)) (a', long (c - k))"
  by (simp add: sieve_loop.simps [of W n i])

lemma int_le_of_square_le: "i * i \<le> n \<Longrightarrow> 0 \<le> i \<Longrightarrow> i \<le> (n::int)"
proof (cases "i = 0")
  case False
  assume "i * i \<le> n" "0 \<le> i"
  with False have "i * 1 \<le> i * i" by (intro mult_left_mono) auto
  with \<open>i * i \<le> n\<close> show ?thesis by simp
qed simp

lemma square_fits:
  assumes "2 \<le> i" "i \<le> 2 ^ 31 + 1"
  shows "long (i * i) = i * i"
proof -
  define s where "s = i * i"
  have "s \<le> (2 ^ 31 + 1) * (2 ^ 31 + 1)" unfolding s_def using assms by (intro mult_mono) auto
  moreover have "0 \<le> s" by (simp add: s_def)
  ultimately have "- (2 ^ 63) \<le> s" "s < 2 ^ 63" by simp_all
  then have "long s = s" by (rule long_id)
  then show ?thesis by (simp add: s_def)
qed

lemma product_fits:
  assumes "0 \<le> m" "m \<le> 2 ^ 31 + 1" "0 < W" "W < (2 ^ 31 :: int)"
  shows "m * W < 2 ^ 63"
proof -
  have "m * W \<le> (2 ^ 31 + 1) * (2 ^ 31 - 1)" using assms by (intro mult_mono) auto
  then show ?thesis by simp
qed

lemma sieve_loop_correct:
  assumes "0 < W" "int W < 2 ^ 31" "0 \<le> n" "n \<le> 2 ^ 31"
    and "2 \<le> i" "i \<le> 2 ^ 31 + 1" "sieved n i a"
    and "- (2 ^ 63) \<le> c - int (card (trues a))" "c < 2 ^ 63"
  shows "\<exists>a'. sieve_loop W n i (a, c)
                 = Some (Inr (a', c - int (card (trues a)) + int (card (trues a')))) \<and> final n a'"
  using assms(5-)
proof (induction "nat (n + 1 - i)" arbitrary: i a c rule: less_induct)
  case less
  have len: "int (length a) = n + 1" using less.prems(3) by (simp add: sieved_def)
  have sq: "long (i * i) = i * i" using less.prems(1,2) by (rule square_fits)
  show ?case
  proof (cases "i * i \<le> n")
    case False
    have "final n a"
      unfolding final_def using final_flags [OF less.prems(1,3) False] len by blast
    then show ?thesis using False sq by (simp add: sieve_loop_exit)
  next
    case True
    then have T: "long (i * i) \<le> n" by (simp add: sq)
    have "i \<le> n" using int_le_of_square_le [of i n] True less.prems(1) by simp
    then have inb: "0 \<le> i" "i < int (length a)" using less.prems(1) len by auto
    have dec: "nat (n + 1 - (i + 1)) < nat (n + 1 - i)" using \<open>i \<le> n\<close> by simp
    have i1: "long (i + 1) = i + 1" using \<open>i \<le> n\<close> assms(4) less.prems(1) by (intro long_id) auto
    have n1: "long (n + 1) = n + 1" using assms(3,4) by (intro long_id) auto
    have i': "2 \<le> i + 1" "i + 1 \<le> 2 ^ 31 + 1" using \<open>i \<le> n\<close> assms(4) less.prems(1) by auto
    show ?thesis
    proof (cases "a ! nat i")
      case False
      have "sieved n (i + 1) a" using less.prems(3,1) \<open>i \<le> n\<close> False by (intro sieved_skip)
      from less.hyps [OF dec i' this less.prems(4,5)]
      show ?thesis unfolding sieve_loop_skip [OF T inb False] i1 .
    next
      case A: True
      let ?a' = "strike a (i * i) (n + 1) i"
      let ?k = "int (card {x \<in> mults (i * i) (n + 1) i. a ! nat x})"
      define s where "s = i * i"
      have "0 \<le> s" "s \<le> n" using True by (simp_all add: s_def)
      then have "(n + 1 - s) * int W < 2 ^ 63"
        using assms(1,2,4) by (intro product_fits) auto
      then have "(n + 1 - i * i) * int W < 2 ^ 63" by (simp add: s_def)
      moreover have "n + 1 + i < 2 ^ 63" using \<open>i \<le> n\<close> assms(4) by simp
      ultimately have m: "mark W a (i * i) (n + 1) i = Some (Inr (?a', ?k))"
        using assms(1,2) less.prems(1) True len by (intro mark_spec) auto
      then have m': "mark W a (long (i * i)) (long (n + 1)) i = Some (Inr (?a', ?k))"
        by (simp add: sq n1)
      have s: "sieved n (i + 1) ?a'" using less.prems(3,1) by (intro sieved_mark)
      have k: "int (card (trues ?a')) = int (card (trues a)) - ?k"
        using len less.prems(1) by (intro card_trues_strike) auto
      then have k0: "0 \<le> ?k" "?k \<le> int (card (trues a))" by auto
      have ck: "long (c - ?k) = c - ?k" using k0 less.prems(4,5) by (intro long_id) auto
      have inv: "- (2 ^ 63) \<le> c - ?k - int (card (trues ?a'))" "c - ?k < 2 ^ 63"
        using k k0 less.prems(4,5) by auto
      from less.hyps [OF dec i' s inv]
      obtain a'' where
        "sieve_loop W n (i + 1) (?a', c - ?k)
           = Some (Inr (a'', c - ?k - int (card (trues ?a')) + int (card (trues a''))))"
        "final n a''"
        by blast
      moreover have "c - ?k - int (card (trues ?a')) = c - int (card (trues a))"
        unfolding k by simp
      ultimately show ?thesis unfolding sieve_loop_mark [OF T inb A m'] i1 ck by auto
    qed
  qed
qed

lemma sieved_init: "0 \<le> n \<Longrightarrow> n < 2 ^ 63 - 1 \<Longrightarrow> sieved n 2 (init_isprime n)"
  by (simp add: sieved_def init_isprime_def nodiv_def long_id)

lemma trues_init:
  assumes "0 \<le> n" "n < 2 ^ 63 - 1"
  shows "int (card (trues (init_isprime n))) = n + 1"
proof -
  have "long (n + 1) = n + 1" using assms by (intro long_id) auto
  with assms have "trues (init_isprime n) = {0..n}" by (auto simp: trues_def init_isprime_def)
  then show ?thesis using assms by simp
qed

lemma sieve_correct:
  assumes "0 < W" "int W < 2 ^ 31" "1 \<le> n" "n \<le> 2 ^ 31"
  shows "sieve W n = Some (Inr (int (prime_pi (nat n))))"
proof -
  from assms have n: "0 \<le> n" "n < 2 ^ 63 - 1" by simp_all
  have l: "long (n - 1) = n - 1" using assms by (intro long_id) auto
  have "- (2 ^ 63) \<le> n - 1 - int (card (trues (init_isprime n)))" "n - 1 < 2 ^ 63"
    using trues_init [OF n] assms by simp_all
  from sieve_loop_correct [OF assms(1,2) n(1) assms(4) _ _ sieved_init [OF n] this]
  obtain a' where
    "sieve_loop W n 2 (init_isprime n, n - 1)
       = Some (Inr (a', n - 1 - int (card (trues (init_isprime n))) + int (card (trues a'))))"
    "final n a'" by auto
  then show ?thesis
    using card_trues_final [OF _ assms(3), of a'] trues_init [OF n]
    by (simp add: sieve_def l)
qed

lemma sieve_small:
  assumes "n < 4"
  shows "sieve W n = Some (Inr (long (n - 1)))"
proof -
  have "long (2 * 2) = 4" by (simp add: long_def)
  with assms have "\<not> long (2 * 2) \<le> n" by simp
  then have "sieve_loop W n 2 (init_isprime n, long (n - 1))
               = Some (Inr (init_isprime n, long (n - 1)))"
    by (rule sieve_loop_exit)
  then show ?thesis by (simp add: sieve_def)
qed

section \<open>Claims about \<^verbatim>\<open>mark\<close> and the partition\<close>

lemma card_hits:
  assumes "0 \<le> f" "t \<le> int (length a)"
  shows "card {x \<in> mults f t p. a ! nat x} = card {x. x < length a \<and> a ! x \<and> \<not> strike a f t p ! x}"
proof -
  have "{x \<in> mults f t p. a ! nat x} = int ` {x. x < length a \<and> a ! x \<and> \<not> strike a f t p ! x}"
  proof (intro set_eqI iffI)
    fix x assume "x \<in> {x \<in> mults f t p. a ! nat x}"
    then have x: "f \<le> x" "x < t" "p dvd x" "a ! nat x" by (auto simp: mults_def)
    with assms have "0 \<le> x" "nat x < length a" by auto
    with x have "nat x \<in> {x. x < length a \<and> a ! x \<and> \<not> strike a f t p ! x}"
      by (simp add: nth_strike)
    then show "x \<in> int ` {x. x < length a \<and> a ! x \<and> \<not> strike a f t p ! x}"
      using \<open>0 \<le> x\<close> by (metis (no_types, lifting) image_eqI int_nat_eq)
  next
    fix x assume "x \<in> int ` {x. x < length a \<and> a ! x \<and> \<not> strike a f t p ! x}"
    then show "x \<in> {x \<in> mults f t p. a ! nat x}"
      by (auto simp: nth_strike mults_def)
  qed
  then show ?thesis by (simp add: card_image)
qed

text \<open>
  Claim C2, as the specification states it, for every stride \<open>p \<ge> 1\<close>: \<open>mark\<close> clears
  exactly the set flags at the multiples of \<open>p\<close> in \<open>[from, to)\<close> and returns their
  number. It fails where the rounding \<^verbatim>\<open>my_from + p - 1\<close> leaves the range of \<^verbatim>\<open>long\<close>:
  with nine set flags, \<open>from = 4\<close>, \<open>to = 8\<close> and \<open>p = 2^63 - 1\<close> the one thread starts at
  index 0, clears it and returns 1, although \<open>[4, 8)\<close> holds no multiple of \<open>p\<close>.
\<close>

theorem mark_stride_overflow_counterexample:
  "(0::int) \<le> 4 \<and> (4::int) \<le> 8 \<and> 8 \<le> int (length (replicate 9 True)) \<and> (1::int) \<le> 2 ^ 63 - 1 \<and>
   \<not> (4 \<le> (0::int)) \<and>
   mark 1 (replicate 9 True) 4 8 (2 ^ 63 - 1)
     = Some (Inr ([False, True, True, True, True, True, True, True, True], 1))"
proof -
  have "mark 1 (replicate 9 True) 4 8 (2 ^ 63 - 1)
     = Some (Inr ([False, True, True, True, True, True, True, True, True], 1))"
    by code_simp
  then show ?thesis by simp
qed

text \<open>
  Claim C2, amended: for every array, every \<open>from\<close>, \<open>to\<close> with
  \<open>0 \<le> from \<le> to \<le> len(array)\<close>, every stride \<open>p \<ge> 1\<close> with \<open>to + p < 2^63\<close> and every
  number of threads \<open>1 \<le> W < 2^31\<close> with \<open>(to - from) * W < 2^63\<close>, \<open>mark\<close> returns, it
  sets to false exactly those indices in \<open>[from, to)\<close> that are multiples of \<open>p\<close> and
  currently true, and it returns the number of indices it newly set to false; when
  \<open>to \<le> from\<close> it returns 0 and changes nothing.
\<close>

theorem mark_marks_multiples:
  assumes "0 \<le> from" "from \<le> to" "to \<le> int (length array)" "1 \<le> p"
    and "0 < num_threads" "int num_threads < 2 ^ 31"
    and "(to - from) * int num_threads < 2 ^ 63" "to + p < 2 ^ 63"
  shows "\<exists>array' nmarked.
           mark num_threads array from to p = Some (Inr (array', nmarked)) \<and>
           length array' = length array \<and>
           (\<forall>x<length array.
              array' ! x = (array ! x \<and> \<not> (from \<le> int x \<and> int x < to \<and> p dvd int x))) \<and>
           nmarked = int (card {x. x < length array \<and> array ! x \<and> \<not> array' ! x}) \<and>
           (to \<le> from \<longrightarrow> array' = array \<and> nmarked = 0)"
proof -
  have m: "mark num_threads array from to p =
        Some (Inr (strike array from to p, int (card {x \<in> mults from to p. array ! nat x})))"
    using assms by (intro mark_spec) auto
  have "strike array from to p = array" "card {x \<in> mults from to p. array ! nat x} = 0"
    if "to \<le> from"
    using that by (simp_all add: strike_eq_strike_set)
  then show ?thesis
    using assms card_hits [of "from" to array p] by (simp add: m nth_strike)
qed

theorem mark_marks_multiples_witness:
  "(0::int) \<le> 2 \<and> (2::int) \<le> 8 \<and> 8 \<le> int (length [True, True, True, False, True, True, True, True, True]) \<and>
   (1::int) \<le> 2 \<and> (0::nat) < 3 \<and> int 3 < 2 ^ 31 \<and> (8 - 2) * int 3 < 2 ^ 63 \<and> (8::int) + 2 < 2 ^ 63 \<and>
   (\<exists>array' nmarked.
      mark 3 [True, True, True, False, True, True, True, True, True] 2 8 2
        = Some (Inr (array', nmarked)) \<and>
      length array' = length [True, True, True, False, True, True, True, True, True] \<and>
      (\<forall>x<length [True, True, True, False, True, True, True, True, True].
         array' ! x = ([True, True, True, False, True, True, True, True, True] ! x \<and>
                       \<not> (2 \<le> int x \<and> int x < 8 \<and> 2 dvd int x))) \<and>
      nmarked = int (card {x. x < length [True, True, True, False, True, True, True, True, True] \<and>
                              [True, True, True, False, True, True, True, True, True] ! x \<and> \<not> array' ! x}) \<and>
      ((8::int) \<le> 2 \<longrightarrow> array' = [True, True, True, False, True, True, True, True, True] \<and> nmarked = 0))"
  using mark_marks_multiples [of 2 8 "[True, True, True, False, True, True, True, True, True]" 2 3]
  by simp

text \<open>
  Claim C10, as stated for every stride \<open>p \<ge> 1\<close>: a call of \<open>mark\<close> leaves every entry
  outside \<open>[from, to)\<close> unchanged. It fails where \<^verbatim>\<open>my_from + p - 1\<close> overflows: with nine
  set flags, \<open>from = 6\<close>, \<open>to = 9\<close> and \<open>p = 2^63 - 2\<close> the flag at index 0 is cleared.
\<close>

theorem mark_frame_counterexample:
  "(0::int) \<le> 6 \<and> (6::int) \<le> 9 \<and> 9 \<le> int (length (replicate 9 True)) \<and> (1::int) \<le> 2 ^ 63 - 2 \<and>
   \<not> (6 \<le> int 0) \<and> replicate 9 True ! 0 \<and>
   \<not> [False, True, True, True, True, True, True, True, True] ! 0 \<and>
   mark 1 (replicate 9 True) 6 9 (2 ^ 63 - 2)
     = Some (Inr ([False, True, True, True, True, True, True, True, True], 1))"
proof -
  have "mark 1 (replicate 9 True) 6 9 (2 ^ 63 - 2)
     = Some (Inr ([False, True, True, True, True, True, True, True, True], 1))"
    by code_simp
  then show ?thesis by simp
qed

text \<open>
  Claim C10, amended: for every call \<open>mark(array, from, to, p)\<close> with
  \<open>0 \<le> from \<le> to \<le> len(array)\<close>, \<open>p \<ge> 1\<close>, \<open>to + p < 2^63\<close> and a number of threads
  \<open>1 \<le> W < 2^31\<close> with \<open>(to - from) * W < 2^63\<close>, the call returns and all array
  entries at indices outside \<open>[from, to)\<close> are unchanged.
\<close>

theorem mark_frame:
  assumes "0 \<le> from" "from \<le> to" "to \<le> int (length array)" "1 \<le> p"
    and "0 < num_threads" "int num_threads < 2 ^ 31"
    and "(to - from) * int num_threads < 2 ^ 63" "to + p < 2 ^ 63"
  shows "\<exists>array' nmarked.
           mark num_threads array from to p = Some (Inr (array', nmarked)) \<and>
           length array' = length array \<and>
           (\<forall>x<length array. \<not> (from \<le> int x \<and> int x < to) \<longrightarrow> array' ! x = array ! x)"
proof -
  have "mark num_threads array from to p =
        Some (Inr (strike array from to p, int (card {x \<in> mults from to p. array ! nat x})))"
    using assms by (intro mark_spec) auto
  then show ?thesis by (auto simp: nth_strike)
qed

theorem mark_frame_witness:
  "(0::int) \<le> 2 \<and> (2::int) \<le> 8 \<and> 8 \<le> int (length [True, True, True, False, True, True, True, True, True]) \<and>
   (1::int) \<le> 2 \<and> (0::nat) < 3 \<and> int 3 < 2 ^ 31 \<and> (8 - 2) * int 3 < 2 ^ 63 \<and> (8::int) + 2 < 2 ^ 63 \<and>
   (\<exists>array' nmarked.
      mark 3 [True, True, True, False, True, True, True, True, True] 2 8 2
        = Some (Inr (array', nmarked)) \<and>
      length array' = length [True, True, True, False, True, True, True, True, True] \<and>
      (\<forall>x<length [True, True, True, False, True, True, True, True, True].
         \<not> (2 \<le> int x \<and> int x < 8) \<longrightarrow>
         array' ! x = [True, True, True, False, True, True, True, True, True] ! x))"
  using mark_frame [of 2 8 "[True, True, True, False, True, True, True, True, True]" 2 3]
  by simp

text \<open>
  Claim C7, as stated for every stride \<open>p \<ge> 1\<close>: of two calls of \<open>mark\<close> in succession
  the first returns a count \<open>\<ge> 0\<close> and the second returns 0. It fails where
  \<^verbatim>\<open>my_from + p - 1\<close> overflows: with nine set flags, \<open>from = 2\<close>, \<open>to = 8\<close> and
  \<open>p = 2^63 - 1\<close> the first call reads \<^verbatim>\<open>isprime[-(2^63 - 1)]\<close> and returns no count.
\<close>

theorem mark_twice_counterexample:
  "(1::int) \<le> 2 ^ 63 - 1 \<and> (0::int) \<le> 2 \<and> (2::int) \<le> 8 \<and> 8 \<le> int (length (replicate 9 True)) \<and>
   mark 1 (replicate 9 True) 2 8 (2 ^ 63 - 1) = Some (Inl (OutOfBounds (- (2 ^ 63 - 1))))"
proof -
  have "mark 1 (replicate 9 True) 2 8 (2 ^ 63 - 1) = Some (Inl (OutOfBounds (- (2 ^ 63 - 1))))"
    by code_simp
  then show ?thesis by simp
qed

lemma strike_idem: "strike (strike a f t p) f t p = strike a f t p"
  by (auto simp: list_eq_iff_nth_eq nth_strike)

text \<open>
  Claim C7, amended: for every array, \<open>from\<close>, \<open>to\<close> with \<open>0 \<le> from \<le> to \<le> len(array)\<close>,
  \<open>p \<ge> 1\<close> with \<open>to + p < 2^63\<close> and a number of threads \<open>1 \<le> W < 2^31\<close> with
  \<open>(to - from) * W < 2^63\<close>, calling \<open>mark\<close> twice in succession on the same array and
  range returns a count \<open>\<ge> 0\<close> the first time and exactly 0 the second time, and the
  second call changes nothing.
\<close>

theorem mark_twice:
  assumes "1 \<le> p" "0 < num_threads" "int num_threads < 2 ^ 31"
    and "0 \<le> from" "from \<le> to" "to \<le> int (length array)"
    and "(to - from) * int num_threads < 2 ^ 63" "to + p < 2 ^ 63"
  shows "\<exists>array' nmarked.
           mark num_threads array from to p = Some (Inr (array', nmarked)) \<and> 0 \<le> nmarked \<and>
           mark num_threads array' from to p = Some (Inr (array', 0))"
proof -
  let ?a' = "strike array from to p"
  have 1: "mark num_threads array from to p =
        Some (Inr (?a', int (card {x \<in> mults from to p. array ! nat x})))"
    using assms by (intro mark_spec) auto
  have 2: "mark num_threads ?a' from to p =
        Some (Inr (strike ?a' from to p, int (card {x \<in> mults from to p. ?a' ! nat x})))"
    using assms by (intro mark_spec) auto
  have "{x \<in> mults from to p. ?a' ! nat x} = {}"
    using assms by (auto simp: mults_def nth_strike)
  then show ?thesis using 1 2 by (simp add: strike_idem)
qed

theorem mark_twice_witness:
  "(1::int) \<le> 3 \<and> (0::nat) < 2 \<and> int 2 < 2 ^ 31 \<and> (0::int) \<le> 0 \<and> (0::int) \<le> 7 \<and>
   7 \<le> int (length [True, True, True, True, True, True, True]) \<and>
   (7 - 0) * int 2 < 2 ^ 63 \<and> (7::int) + 3 < 2 ^ 63 \<and>
   (\<exists>array' nmarked.
      mark 2 [True, True, True, True, True, True, True] 0 7 3 = Some (Inr (array', nmarked)) \<and>
      0 \<le> nmarked \<and> mark 2 array' 0 7 3 = Some (Inr (array', 0)))"
  using mark_twice [of 3 2 0 7 "[True, True, True, True, True, True, True]"]
  by simp

text \<open>
  Claim C3, as stated for every \<open>from \<le> to\<close> and every \<open>W \<ge> 1\<close>: the \<open>W\<close> sub-ranges
  are contiguous, disjoint and cover \<open>[from, to)\<close>. The program multiplies in \<^verbatim>\<open>long\<close>,
  and the claim fails where \<open>(to - from) * (id + 1)\<close> overflows: with \<open>from = 0\<close>,
  \<open>to = 2^62\<close> and \<open>W = 4\<close> the bounds are 0, \<open>2^60\<close>, \<open>-2^61\<close>, \<open>-2^60\<close>, 0, so the last
  sub-range ends at 0 and not at \<open>to\<close>, and the sub-ranges do not cover \<open>[from, to)\<close>.
\<close>

theorem partition_overflow_counterexample:
  "(0::int) \<le> 2 ^ 62 \<and> (1::int) \<le> 4 \<and>
   my_from 4 0 (2 ^ 62) 0 = 0 \<and> my_to 4 0 (2 ^ 62) 0 = 2 ^ 60 \<and>
   my_to 4 0 (2 ^ 62) 1 = - (2 ^ 61) \<and> my_to 4 0 (2 ^ 62) 2 = - (2 ^ 60) \<and>
   my_to 4 0 (2 ^ 62) 3 = 0 \<and> my_to 4 0 (2 ^ 62) 3 \<noteq> 2 ^ 62"
  by (simp add: my_from_def my_to_def long_def cint_def cdiv_def)

lemma telescope_int: "(\<Sum>k<n. g (Suc k) - g k) = g n - (g 0 :: int)"
  by (induction n) simp_all

text \<open>
  Claim C3, amended: for every \<open>from \<le> to\<close> in the range of \<^verbatim>\<open>long\<close> and every number
  of threads \<open>1 \<le> W < 2^31\<close> with \<open>(to - from) * W < 2^63\<close>, the bounds that the program
  computes are \<open>subFrom_id = from + ((to-from)*id)/W\<close> and
  \<open>subTo_id = from + ((to-from)*(id+1))/W\<close>; the \<open>W\<close> sub-ranges are contiguous
  (\<open>subTo_id = subFrom_{id+1}\<close>), start at \<open>from\<close>, end at \<open>to\<close>, are pairwise disjoint,
  their union is exactly \<open>[from, to)\<close>, and their lengths add up to \<open>to - from\<close>,
  whether or not \<open>W\<close> divides \<open>to - from\<close>.
\<close>

theorem partition_covers:
  assumes "from \<le> to" "0 < W" "int W < 2 ^ 31"
    and "- (2 ^ 63) \<le> from" "to < 2 ^ 63" "(to - from) * int W < 2 ^ 63"
  shows "(\<forall>k. 0 \<le> k \<and> k < int W \<longrightarrow>
              my_from (int W) from to k = subFrom (int W) from to k \<and>
              my_to (int W) from to k = subTo (int W) from to k) \<and>
         (\<forall>k. 0 \<le> k \<and> k < int W \<longrightarrow> my_to (int W) from to k = my_from (int W) from to (k + 1)) \<and>
         my_from (int W) from to 0 = from \<and>
         my_to (int W) from to (int W - 1) = to \<and>
         (\<forall>k. 0 \<le> k \<and> k < int W \<longrightarrow>
              from \<le> my_from (int W) from to k \<and>
              my_from (int W) from to k \<le> my_to (int W) from to k \<and>
              my_to (int W) from to k \<le> to) \<and>
         (\<forall>j k. 0 \<le> j \<and> j < k \<and> k < int W \<longrightarrow>
              {my_from (int W) from to j ..< my_to (int W) from to j} \<inter>
              {my_from (int W) from to k ..< my_to (int W) from to k} = {}) \<and>
         (\<Union>k\<in>{0..<int W}. {my_from (int W) from to k ..< my_to (int W) from to k}) = {from..<to} \<and>
         (\<Sum>k<W. my_to (int W) from to (int k) - my_from (int W) from to (int k)) = to - from"
proof -
  let ?f = "subFrom (int W) from to" and ?t = "subTo (int W) from to"
  have mf: "my_from (int W) from to k = ?f k" if "0 \<le> k" "k \<le> int W" for k
    using assms that by (intro my_from_exact) auto
  have mt: "my_to (int W) from to k = ?t k" if "0 \<le> k" "k < int W" for k
    using assms that by (intro my_to_exact) auto
  have W: "0 < int W" using assms by simp
  have 1: "\<forall>k. 0 \<le> k \<and> k < int W \<longrightarrow>
              my_from (int W) from to k = ?f k \<and> my_to (int W) from to k = ?t k"
    using mf mt by simp
  have 2: "\<forall>k. 0 \<le> k \<and> k < int W \<longrightarrow> my_to (int W) from to k = my_from (int W) from to (k + 1)"
    using mf mt by (simp add: subTo_eq_subFrom)
  have 3: "my_from (int W) from to 0 = from" using mf [of 0] by simp
  have 4: "my_to (int W) from to (int W - 1) = to"
    using mt [of "int W - 1"] W by (simp add: subTo_eq_subFrom subFrom_last)
  have 5: "\<forall>k. 0 \<le> k \<and> k < int W \<longrightarrow>
              from \<le> my_from (int W) from to k \<and>
              my_from (int W) from to k \<le> my_to (int W) from to k \<and>
              my_to (int W) from to k \<le> to"
  proof (intro allI impI)
    fix k assume k: "0 \<le> k \<and> k < int W"
    have "from \<le> ?f k" using W k assms(1) by (intro subFrom_ge) auto
    moreover have "?f k \<le> ?t k"
      unfolding subTo_eq_subFrom using W assms(1) by (intro subFrom_mono) auto
    moreover have "?t k \<le> to"
      unfolding subTo_eq_subFrom using W k assms(1) by (intro subFrom_le) auto
    ultimately show "from \<le> my_from (int W) from to k \<and>
              my_from (int W) from to k \<le> my_to (int W) from to k \<and>
              my_to (int W) from to k \<le> to"
      using k by (simp add: mf mt)
  qed
  have 6: "\<forall>j k. 0 \<le> j \<and> j < k \<and> k < int W \<longrightarrow>
              {my_from (int W) from to j ..< my_to (int W) from to j} \<inter>
              {my_from (int W) from to k ..< my_to (int W) from to k} = {}"
  proof (intro allI impI)
    fix j k assume jk: "0 \<le> j \<and> j < k \<and> k < int W"
    then have "?t j \<le> ?f k"
      unfolding subTo_eq_subFrom using W assms(1) by (intro subFrom_mono) auto
    moreover have "my_to (int W) from to j = ?t j" "my_from (int W) from to k = ?f k"
      using jk by (auto simp: mf mt)
    ultimately show "{my_from (int W) from to j ..< my_to (int W) from to j} \<inter>
              {my_from (int W) from to k ..< my_to (int W) from to k} = {}" by auto
  qed
  have "(\<Union>k\<in>{0..<int W}. part (int W) from to 1 k) = mults from to 1"
    using assms by (intro part_Union_all) auto
  then have "(\<Union>k\<in>{0..<int W}. {?f k ..< ?t k}) = {from..<to}"
    by (auto simp: part_def mults_def set_eq_iff)
  moreover have "(\<Union>k\<in>{0..<int W}. {my_from (int W) from to k ..< my_to (int W) from to k})
                   = (\<Union>k\<in>{0..<int W}. {?f k ..< ?t k})"
    by (intro SUP_cong refl) (simp add: mf mt)
  ultimately have 7: "(\<Union>k\<in>{0..<int W}. {my_from (int W) from to k ..< my_to (int W) from to k})
                   = {from..<to}" by simp
  have "(\<Sum>k<W. ?f (int (Suc k)) - ?f (int k)) = ?f (int W) - ?f (int 0)"
    by (rule telescope_int)
  then have "(\<Sum>k<W. ?t (int k) - ?f (int k)) = to - from"
    using W by (simp add: subTo_eq_subFrom subFrom_last add.commute)
  moreover have "(\<Sum>k<W. my_to (int W) from to (int k) - my_from (int W) from to (int k))
                   = (\<Sum>k<W. ?t (int k) - ?f (int k))"
    by (intro sum.cong refl) (simp add: mf mt)
  ultimately have 8: "(\<Sum>k<W. my_to (int W) from to (int k) - my_from (int W) from to (int k))
                   = to - from" by simp
  from 1 2 3 4 5 6 7 8 show ?thesis by (intro conjI)
qed

theorem partition_covers_witness:
  "(2::int) \<le> 12 \<and> (0::nat) < 3 \<and> int 3 < 2 ^ 31 \<and> - (2 ^ 63) \<le> (2::int) \<and> (12::int) < 2 ^ 63 \<and>
   (12 - 2) * int 3 < 2 ^ 63 \<and>
   my_from (int 3) 2 12 0 = 2 \<and> my_to (int 3) 2 12 (int 3 - 1) = 12 \<and>
   (\<Union>k\<in>{0..<int 3}. {my_from (int 3) 2 12 k ..< my_to (int 3) 2 12 k}) = {2..<12} \<and>
   (\<Sum>k<3. my_to (int 3) 2 12 (int k) - my_from (int 3) 2 12 (int k)) = 12 - 2"
proof -
  have h: "(2::int) \<le> 12" "(0::nat) < 3" "int 3 < 2 ^ 31" "- (2 ^ 63) \<le> (2::int)" "(12::int) < 2 ^ 63"
    "(12 - 2) * int 3 < 2 ^ 63" by simp_all
  from partition_covers [OF h] h show ?thesis by blast
qed


section \<open>Claims about the whole sieve\<close>

lemma prime_pi_Suc: "prime_pi (Suc n) = prime_pi n + (if is_prime (Suc n) then 1 else 0)"
  by (simp add: prime_pi_def)

lemma sieve_returns:
  assumes "0 < W" "int W < 2 ^ 31" "0 \<le> n" "n \<le> 2 ^ 31"
  shows "sieve W n = Some (Inr (if n < 1 then n - 1 else int (prime_pi (nat n))))"
proof (cases "n < 1")
  case True
  with assms have "n = 0" by simp
  then show ?thesis using sieve_small [of n W] by (simp add: long_def)
next
  case False
  then show ?thesis using assms sieve_correct [of W n] by simp
qed

text \<open>
  Claim C8, as stated for every \<open>n \<ge> 0\<close>: \<open>sieve(n+1) - sieve(n)\<close> is either 0 or 1. It
  fails at the hard maximum: for \<open>n = 2^31\<close> the program counts the primes up to \<open>n\<close>,
  and for \<open>n + 1\<close> the guard \<^verbatim>\<open>n > (1ul << 31)\<close> makes it refuse to run, so that there is
  no count \<open>sieve(n+1)\<close>.
\<close>

theorem sieve_next_at_maximum_counterexample:
  "(0::int) \<le> 2147483648 \<and>
   main 4 ''omp-sieve'' [2147483648]
     = Some ([Malloc 2147483649, Free, Stdout_primes (int (prime_pi 2147483648)) 2147483648],
             Exit EXIT_SUCCESS) \<and>
   main 4 ''omp-sieve'' [2147483648 + 1]
     = Some ([Stderr (''FATAL: n too large'' @ [CHR 0x0A])], Exit EXIT_FAILURE)"
proof -
  have "sieve 4 2147483648 = Some (Inr (int (prime_pi (nat 2147483648))))"
    by (rule sieve_correct) simp_all
  then show ?thesis by (simp add: main_def)
qed

text \<open>
  Claim C8, amended: for every \<open>n\<close> with \<open>0 \<le> n < 2^31\<close>, so that the program accepts
  both \<open>n\<close> and \<open>n + 1\<close>, and every number of threads \<open>1 \<le> W < 2^31\<close>, both runs return
  a count and \<open>sieve(n+1) - sieve(n)\<close> is either 0 or 1.
\<close>

theorem sieve_next_adds_at_most_one:
  assumes "0 < W" "int W < 2 ^ 31" "0 \<le> n" "n < 2 ^ 31"
  shows "\<exists>a b. sieve W n = Some (Inr a) \<and> sieve W (n + 1) = Some (Inr b) \<and>
               (b - a = 0 \<or> b - a = 1)"
proof -
  have "nat (n + 1) = Suc (nat n)" using assms by simp
  then show ?thesis
    using sieve_returns [OF assms(1,2), of n] sieve_returns [OF assms(1,2), of "n + 1"] assms
    by (cases "n = 0") (simp_all add: prime_pi_Suc prime_pi_def is_prime_def)
qed

theorem sieve_next_adds_at_most_one_witness:
  "(0::nat) < 2 \<and> int 2 < 2 ^ 31 \<and> (0::int) \<le> 6 \<and> (6::int) < 2 ^ 31 \<and>
   (\<exists>a b. sieve 2 6 = Some (Inr a) \<and> sieve 2 (6 + 1) = Some (Inr b) \<and> (b - a = 0 \<or> b - a = 1))"
  using sieve_next_adds_at_most_one [of 2 6] by simp

text \<open>
  Claim C6, as stated: for every \<open>n\<close> with \<open>0 \<le> n < 2\<close>, \<open>sieve(n)\<close> returns 0. For
  \<open>n = 0\<close> the program sets \<^verbatim>\<open>nprimes = n - 1\<close>, does not enter the loop, and its count
  is \<open>-1\<close>.
\<close>

theorem sieve_zero_counterexample:
  "(0::int) \<le> 0 \<and> (0::int) < 2 \<and> sieve 4 0 = Some (Inr (- 1)) \<and> sieve 4 0 \<noteq> Some (Inr 0)"
  by (simp add: sieve_small long_def)

text \<open>Claim C6, amended: for every \<open>n\<close> with \<open>1 \<le> n < 2\<close>, \<open>sieve(n)\<close> returns 0.\<close>

theorem sieve_one:
  assumes "1 \<le> n" "n < 2"
  shows "sieve W n = Some (Inr 0)"
proof -
  from assms have "n = 1" by simp
  then show ?thesis by (simp add: sieve_small long_def)
qed

theorem sieve_one_witness: "(1::int) \<le> 1 \<and> (1::int) < 2 \<and> sieve 4 1 = Some (Inr 0)"
  using sieve_one [of 1 4] by simp

text \<open>
  Claim C5: every entry of the status array starts true after the initialization, and
  every call of \<open>mark\<close>, and the whole main iteration from any of its states, only ever
  changes an entry from true to false: an entry that is false stays false.
\<close>

theorem flags_only_cleared:
  "(\<forall>k<length (init_isprime n). init_isprime n ! k) \<and>
   (\<forall>array' nmarked. mark W array from to p = Some (Inr (array', nmarked)) \<longrightarrow>
      length array' = length array \<and> (\<forall>k<length array. \<not> array ! k \<longrightarrow> \<not> array' ! k)) \<and>
   (\<forall>isprime' nprimes'.
      sieve_loop W n i (isprime, nprimes) = Some (Inr (isprime', nprimes')) \<longrightarrow>
      length isprime' = length isprime \<and> (\<forall>k<length isprime. \<not> isprime ! k \<longrightarrow> \<not> isprime' ! k))"
proof -
  have A: "\<forall>k<length (init_isprime n). init_isprime n ! k"
    by (simp add: init_isprime_def)
  have B: "\<forall>array' nmarked. mark W array from to p = Some (Inr (array', nmarked)) \<longrightarrow>
      length array' = length array \<and> (\<forall>k<length array. \<not> array ! k \<longrightarrow> \<not> array' ! k)"
  proof (intro allI impI)
    fix array' nmarked assume "mark W array from to p = Some (Inr (array', nmarked))"
    from mark_mono [OF this]
    show "length array' = length array \<and> (\<forall>k<length array. \<not> array ! k \<longrightarrow> \<not> array' ! k)"
      by (auto simp: below_def)
  qed
  have C: "\<forall>isprime' nprimes'.
      sieve_loop W n i (isprime, nprimes) = Some (Inr (isprime', nprimes')) \<longrightarrow>
      length isprime' = length isprime \<and> (\<forall>k<length isprime. \<not> isprime ! k \<longrightarrow> \<not> isprime' ! k)"
  proof (intro allI impI)
    fix isprime' nprimes'
    assume "sieve_loop W n i (isprime, nprimes) = Some (Inr (isprime', nprimes'))"
    from sieve_loop_mono [OF this]
    show "length isprime' = length isprime \<and> (\<forall>k<length isprime. \<not> isprime ! k \<longrightarrow> \<not> isprime' ! k)"
      by (auto simp: below_def)
  qed
  from A B C show ?thesis by (intro conjI)
qed

theorem flags_only_cleared_witness:
  "init_isprime 9 ! 3 \<and>
   (\<exists>array' nmarked. mark 2 [True, True, False, True, True, True] 0 6 3 = Some (Inr (array', nmarked)) \<and>
      length array' = 6 \<and> \<not> array' ! 2) \<and>
   (\<exists>isprime' nprimes'. sieve_loop 2 9 2 ([True, False, True, True, True, True, True, True, True, True], 8)
       = Some (Inr (isprime', nprimes')) \<and> length isprime' = 10 \<and> \<not> isprime' ! 1)"
proof -
  let ?a = "[True, True, False, True, True, True]"
  let ?b = "[True, False, True, True, True, True, True, True, True, True]"
  have m: "mark 2 ?a 0 6 3 = Some (Inr ([False, True, False, False, True, True], 2))"
    by code_simp
  have s: "sieve_loop 2 9 2 (?b, 8)
             = Some (Inr ([True, False, True, True, False, True, False, True, False, False], 4))"
    by code_simp
  note t = flags_only_cleared [of 9 2 ?a 0 6 3 2 ?b 8]
  have "3 < length (init_isprime 9)" by (simp add: init_isprime_def long_def)
  with t have 1: "init_isprime 9 ! 3" by blast
  from t m have "length [False, True, False, False, True, True] = length ?a \<and>
      (\<forall>k<length ?a. \<not> ?a ! k \<longrightarrow> \<not> [False, True, False, False, True, True] ! k)"
    by blast
  then have 2: "length [False, True, False, False, True, True] = 6 \<and>
      \<not> [False, True, False, False, True, True] ! 2" by simp
  from t s have "length [True, False, True, True, False, True, False, True, False, False] = length ?b \<and>
      (\<forall>k<length ?b. \<not> ?b ! k \<longrightarrow>
         \<not> [True, False, True, True, False, True, False, True, False, False] ! k)"
    by blast
  then have 3: "length [True, False, True, True, False, True, False, True, False, False] = 10 \<and>
      \<not> [True, False, True, True, False, True, False, True, False, False] ! 1" by simp
  from 1 2 3 m s show ?thesis by blast
qed

lemma uint_eq_sint_of_pos:
  assumes "0 \<le> sint (w :: 64 word)"
  shows "uint w = sint w"
proof -
  have "sint w < 2 ^ (LENGTH(64) - 1)" by (rule sint_lt)
  then have "sint w < 2 ^ 64" by simp
  with assms have "take_bit 64 (sint w) = sint w" by (intro take_bit_int_eq_self)
  then show ?thesis by (simp add: uint_sint)
qed

text \<open>
  Claim C9: for every \<open>n\<close> above the hard maximum \<open>2^31\<close> the program writes the fatal
  error to the error stream and exits with the failure status; it allocates nothing
  and computes nothing (its only event is the message).
\<close>

theorem main_refuses_large:
  assumes "2 ^ 31 < sint n"
  shows "main W argv0 [n] = Some ([Stderr (''FATAL: n too large'' @ [CHR 0x0A])], Exit EXIT_FAILURE)"
proof -
  have "uint n = sint n" using assms by (intro uint_eq_sint_of_pos) simp
  then show ?thesis using assms by (simp add: main_def)
qed

theorem main_refuses_large_witness:
  "(2 :: int) ^ 31 < sint (2147483649 :: 64 word) \<and>
   main 4 ''omp-sieve'' [2147483649]
     = Some ([Stderr (''FATAL: n too large'' @ [CHR 0x0A])], Exit EXIT_FAILURE)"
  using main_refuses_large [of 2147483649 4 "''omp-sieve''"] by simp

lemma sint_accepted:
  assumes "\<not> 2 ^ 31 < uint (w :: 64 word)"
  shows "0 \<le> sint w \<and> sint w \<le> 2 ^ 31"
proof -
  have u: "0 \<le> uint w" "uint w \<le> 2 ^ 31" using assms by simp_all
  have z: "0 \<le> uint w" by simp
  have "(2::int) ^ 31 < 2 ^ 63" "- ((2::int) ^ 63) \<le> 0" by simp_all
  with u z have "- (2 ^ 63) \<le> uint w" "uint w < 2 ^ 63" by linarith+
  then have "signed_take_bit 63 (uint w) = uint w"
    by (rule signed_take_bit_int_eq_self)
  then have "sint w = uint w" by (simp add: sint_uint)
  with u show ?thesis by simp
qed

text \<open>
  Claim C4: the count does not depend on the number of threads. For all numbers of
  threads \<open>W1, W2 \<ge> 1\<close> (of type \<^verbatim>\<open>int\<close>) the program does the same on every command
  line, the sieve returns the same count for every \<open>n\<close> that the program accepts, and
  \<open>mark\<close> with \<open>W1\<close> threads returns what it returns with \<open>W2\<close> threads and with one
  thread, wherever its arithmetic stays in the range of \<^verbatim>\<open>long\<close>.
\<close>

theorem worker_count_independent:
  assumes "0 < W1" "int W1 < 2 ^ 31" "0 < W2" "int W2 < 2 ^ 31"
  shows "main W1 argv0 args = main W2 argv0 args \<and>
         (0 \<le> n \<and> n \<le> 2 ^ 31 \<longrightarrow>
            sieve W1 n = sieve W2 n \<and> (\<exists>count. sieve W1 n = Some (Inr count))) \<and>
         (1 \<le> p \<and> 0 \<le> from \<and> from \<le> to \<and> to \<le> int (length array) \<and> to + p < 2 ^ 63 \<and>
          (to - from) * int W1 < 2 ^ 63 \<and> (to - from) * int W2 < 2 ^ 63 \<longrightarrow>
            mark W1 array from to p = mark W2 array from to p \<and>
            mark W1 array from to p = mark 1 array from to p \<and>
            (\<exists>r. mark W1 array from to p = Some (Inr r)))"
proof -
  have s: "sieve W1 m = sieve W2 m" "\<exists>count. sieve W1 m = Some (Inr count)"
    if "0 \<le> m \<and> m \<le> 2 ^ 31" for m
    using that assms by (simp_all add: sieve_returns)
  have "main W1 argv0 args = main W2 argv0 args"
  proof (cases "1 < length args")
    case True
    then show ?thesis by (simp add: main_def)
  next
    case False
    define w where "w = (case args of [] \<Rightarrow> (1000000 :: 64 word) | a # _ \<Rightarrow> a)"
    show ?thesis
    proof (cases "2 ^ 31 < uint w")
      case True
      with False show ?thesis by (simp add: main_def w_def Let_def)
    next
      case F: False
      from sint_accepted [OF this] s(1) [of "sint w"] have "sieve W1 (sint w) = sieve W2 (sint w)"
        by simp
      with False F show ?thesis by (simp add: main_def w_def [symmetric] Let_def)
    qed
  qed
  moreover have "mark W array from to p =
          Some (Inr (strike array from to p, int (card {x \<in> mults from to p. array ! nat x})))"
    if "1 \<le> p \<and> 0 \<le> from \<and> from \<le> to \<and> to \<le> int (length array) \<and> to + p < 2 ^ 63"
      "(to - from) * int W < 2 ^ 63" "0 < W" "int W < 2 ^ 31" for W
    using that by (intro mark_spec) auto
  note this [of W1] this [of W2] this [of 1]
  ultimately show ?thesis using assms s [of n] by simp
qed

theorem worker_count_independent_witness:
  "(0::nat) < 1 \<and> int 1 < 2 ^ 31 \<and> (0::nat) < 8 \<and> int 8 < 2 ^ 31 \<and>
   main 1 ''omp-sieve'' [30] = main 8 ''omp-sieve'' [30] \<and>
   (0::int) \<le> 30 \<and> (30::int) \<le> 2 ^ 31 \<and>
   sieve 1 30 = sieve 8 30 \<and> (\<exists>count. sieve 1 30 = Some (Inr count)) \<and>
   (1::int) \<le> 2 \<and> (0::int) \<le> 1 \<and> (1::int) \<le> 5 \<and> 5 \<le> int (length [True, True, True, True, True]) \<and>
   (5::int) + 2 < 2 ^ 63 \<and> (5 - 1) * int 1 < 2 ^ 63 \<and> (5 - 1) * int 8 < 2 ^ 63 \<and>
   mark 1 [True, True, True, True, True] 1 5 2 = mark 8 [True, True, True, True, True] 1 5 2"
proof -
  have W: "(0::nat) < 1" "int 1 < 2 ^ 31" "(0::nat) < 8" "int 8 < 2 ^ 31" by simp_all
  have n: "(0::int) \<le> 30 \<and> (30::int) \<le> 2 ^ 31" by simp
  have pre: "(1::int) \<le> 2 \<and> (0::int) \<le> 1 \<and> (1::int) \<le> 5 \<and>
      5 \<le> int (length [True, True, True, True, True]) \<and>
      (5::int) + 2 < 2 ^ 63 \<and> (5 - 1) * int 1 < 2 ^ 63 \<and> (5 - 1) * int 8 < 2 ^ 63"
    by simp
  from worker_count_independent
    [OF W, of "''omp-sieve''" "[30]" 30 2 1 5 "[True, True, True, True, True]"] n pre
  have "main 1 ''omp-sieve'' [30] = main 8 ''omp-sieve'' [30]"
    "sieve 1 30 = sieve 8 30" "\<exists>count. sieve 1 30 = Some (Inr count)"
    "mark 1 [True, True, True, True, True] 1 5 2 = mark 8 [True, True, True, True, True] 1 5 2"
    by blast+
  with W n pre show ?thesis by blast
qed


section \<open>The prime-counting function at the powers of ten\<close>

text \<open>
  The values of \<open>prime_pi\<close> come from Legendre's formula
  \<open>\<pi>(N) = \<phi>(N, a) + a - 1\<close>, where \<open>\<phi>(x, a)\<close> counts the \<open>k\<close> in \<open>[1, x]\<close> that no
  one of the first \<open>a\<close> primes divides, and these are the primes up to a bound \<open>b\<close> with
  \<open>b \<le> N < (b + 1)\<^sup>2\<close>.
\<close>

lemma is_prime_ge_2: "is_prime p \<Longrightarrow> 2 \<le> p"
  by (simp add: is_prime_def)

lemma is_prime_dvd:
  assumes "is_prime p" "d dvd p"
  shows "d = 1 \<or> d = p"
proof (rule ccontr)
  assume n: "\<not> (d = 1 \<or> d = p)"
  from assms have "0 < p" by (simp add: is_prime_def)
  with assms(2) have "d \<le> p" "d \<noteq> 0" by (auto dest: dvd_imp_le)
  with n have "d \<in> {2..<p}" by auto
  with assms show False by (auto simp: is_prime_def)
qed

lemma prime_divisor_exists: "2 \<le> k \<Longrightarrow> \<exists>q. is_prime q \<and> q dvd k"
proof (induction k rule: less_induct)
  case (less k)
  show ?case
  proof (cases "is_prime k")
    case True
    then show ?thesis by auto
  next
    case False
    with less.prems obtain d where d: "d \<in> {2..<k}" "d dvd k" by (auto simp: is_prime_def)
    with less.IH [of d] obtain q where "is_prime q" "q dvd d" by auto
    with d show ?thesis by (meson dvd_trans)
  qed
qed

lemma primes_coprime:
  assumes "is_prime p" "is_prime q" "p \<noteq> q"
  shows "coprime p q"
proof (rule coprimeI)
  fix c assume "c dvd p" "c dvd q"
  with assms is_prime_dvd [of p c] is_prime_dvd [of q c] show "is_unit c" by auto
qed

text \<open>
  \<open>phi x S\<close> counts the numbers in \<open>{1, ..., x}\<close> that no element of \<open>S\<close> divides
  (Legendre's function when \<open>S\<close> is a set of primes).
\<close>

definition rough :: "nat set \<Rightarrow> nat \<Rightarrow> bool" where
  "rough S k \<longleftrightarrow> (\<forall>q\<in>S. \<not> q dvd k)"

definition phi :: "nat \<Rightarrow> nat set \<Rightarrow> nat" where
  "phi x S = card {k. 1 \<le> k \<and> k \<le> x \<and> rough S k}"

lemma finite_phi_set [simp]: "finite {k::nat. 1 \<le> k \<and> k \<le> x \<and> P k}"
  by (rule finite_subset [of _ "{..x}"]) auto

lemma phi_empty [simp]: "phi x {} = x"
proof -
  have "{k. 1 \<le> k \<and> k \<le> x} = {1..x}" by auto
  then show ?thesis by (simp add: phi_def rough_def)
qed

lemma phi_insert:
  assumes p: "is_prime p" and S: "\<forall>q\<in>S. is_prime q \<and> q \<noteq> p"
  shows "phi x (insert p S) + phi (x div p) S = phi x S"
proof -
  let ?A = "{k. 1 \<le> k \<and> k \<le> x \<and> rough (insert p S) k}"
  let ?B = "{k. 1 \<le> k \<and> k \<le> x \<and> rough S k \<and> p dvd k}"
  let ?C = "{j. 1 \<le> j \<and> j \<le> x div p \<and> rough S j}"
  have p0: "0 < p" using p by (simp add: is_prime_def)
  have r: "rough S (p * j) = rough S j" for j
  proof -
    have "q dvd p * j \<longleftrightarrow> q dvd j" if "q \<in> S" for q
    proof -
      from that S p have "coprime q p" by (intro primes_coprime) auto
      then show ?thesis by (rule coprime_dvd_mult_right_iff)
    qed
    then show ?thesis by (simp add: rough_def)
  qed
  have "?B = (\<lambda>j. p * j) ` ?C"
  proof (intro set_eqI iffI)
    fix k assume "k \<in> ?B"
    then obtain j where k: "k = p * j" "1 \<le> k" "k \<le> x" "rough S k" by (auto elim: dvdE)
    then have "1 \<le> j" by (cases j) auto
    moreover have "j \<le> x div p" using k p0 by (simp add: less_eq_div_iff_mult_less_eq mult.commute)
    ultimately show "k \<in> (\<lambda>j. p * j) ` ?C" using k r by auto
  next
    fix k assume "k \<in> (\<lambda>j. p * j) ` ?C"
    then obtain j where j: "k = p * j" "1 \<le> j" "j \<le> x div p" "rough S j" by auto
    then have "p * j \<le> x" using p0 by (simp add: less_eq_div_iff_mult_less_eq mult.commute)
    moreover have "1 \<le> p * j" using j p0 by (simp add: Suc_le_eq)
    ultimately show "k \<in> ?B" using j r by auto
  qed
  moreover have "inj_on (\<lambda>j. p * j) ?C" using p0 by (auto simp: inj_on_def)
  ultimately have cB: "card ?B = card ?C" by (simp add: card_image)
  have "{k. 1 \<le> k \<and> k \<le> x \<and> rough S k} = ?A \<union> ?B" "?A \<inter> ?B = {}"
    by (auto simp: rough_def)
  then have "card {k. 1 \<le> k \<and> k \<le> x \<and> rough S k} = card ?A + card ?B"
    by (simp add: card_Un_disjoint)
  with cB show ?thesis unfolding phi_def by linarith
qed

lemma phi_small:
  assumes "\<forall>q. is_prime q \<and> q \<le> x \<longrightarrow> q \<in> S" "\<forall>q\<in>S. 2 \<le> q"
  shows "phi x S = (if x = 0 then 0 else 1)"
proof -
  have "\<not> rough S k" if "2 \<le> k" "k \<le> x" for k
  proof -
    from prime_divisor_exists [OF that(1)] obtain q where q: "is_prime q" "q dvd k" by auto
    with that have "q \<le> x" by (meson dvd_imp_le le_trans not_less zero_less_numeral less_le_trans)
    with q assms(1) show ?thesis by (auto simp: rough_def)
  qed
  moreover have "rough S 1" using assms(2) by (auto simp: rough_def)
  ultimately have "{k. 1 \<le> k \<and> k \<le> x \<and> rough S k} = (if x = 0 then {} else {1})"
    by (auto simp: le_Suc_eq) (metis One_nat_def Suc_1 Suc_leI le_neq_implies_less not_less_eq_eq)
  then show ?thesis by (simp add: phi_def)
qed

lemma composite_small_factor:
  assumes "2 \<le> k" "\<not> is_prime k"
  shows "\<exists>q. is_prime q \<and> q dvd k \<and> q * q \<le> k"
proof -
  from assms obtain d where d: "d \<in> {2..<k}" "d dvd k" by (auto simp: is_prime_def)
  then obtain e where e: "k = d * e" by (auto elim: dvdE)
  with d have "e \<noteq> 0" "e \<noteq> 1" by auto
  then have e2: "2 \<le> e" by simp
  define m where "m = min d e"
  have m: "2 \<le> m" "m dvd k" "m * m \<le> k"
    using d e e2 by (auto simp: m_def min_def mult_le_mono)
  from prime_divisor_exists [OF m(1)] obtain q where q: "is_prime q" "q dvd m" by auto
  have "q \<le> m" using dvd_imp_le [OF q(2)] m(1) by simp
  then have "q * q \<le> m * m" using mult_le_mono by blast
  with q m show ?thesis by (meson dvd_trans le_trans)
qed

lemma legendre:
  assumes S: "S = {q. is_prime q \<and> q \<le> b}" and N: "b \<le> N" "N < (b + 1) * (b + 1)" "1 \<le> N"
  shows "phi N S + card S = 1 + prime_pi N"
proof -
  let ?T = "{k. is_prime k \<and> b < k \<and> k \<le> N}"
  have finS: "finite S" unfolding S by (rule finite_subset [of _ "{..b}"]) auto
  have finT: "finite ?T" by (rule finite_subset [of _ "{..N}"]) auto
  have "is_prime k \<and> b < k" if k: "2 \<le> k" "k \<le> N" "rough S k" for k
  proof -
    have "is_prime k"
    proof (rule ccontr)
      assume "\<not> is_prime k"
      from composite_small_factor [OF k(1) this] obtain q where
        q: "is_prime q" "q dvd k" "q * q \<le> k" by auto
      have "q \<le> b"
      proof (rule ccontr)
        assume "\<not> q \<le> b"
        then have "b + 1 \<le> q" by simp
        then have "(b + 1) * (b + 1) \<le> q * q" using mult_le_mono by blast
        with q k N show False by linarith
      qed
      with q k show False by (auto simp: rough_def S)
    qed
    moreover have "b < k"
    proof (rule ccontr)
      assume "\<not> b < k"
      with \<open>is_prime k\<close> have "k \<in> S" by (simp add: S)
      with k show False by (auto simp: rough_def)
    qed
    ultimately show ?thesis ..
  qed
  moreover have "rough S k" if "is_prime k" "b < k" for k
    unfolding rough_def
  proof (intro ballI notI)
    fix q assume "q \<in> S" "q dvd k"
    with is_prime_dvd [OF that(1), of q] that(2) show False
      by (auto simp: S is_prime_def)
  qed
  moreover have "rough S 1" by (auto simp: rough_def S is_prime_def)
  ultimately have *: "1 \<le> k \<and> k \<le> N \<and> rough S k \<longleftrightarrow> k = 1 \<or> k \<in> ?T" for k
  proof (cases "k = 1")
    case True
    assume "rough S 1"
    with True N(3) show ?thesis by simp
  next
    case False
    assume a: "\<And>k. 2 \<le> k \<Longrightarrow> k \<le> N \<Longrightarrow> rough S k \<Longrightarrow> is_prime k \<and> b < k"
      and b: "\<And>k. is_prime k \<Longrightarrow> b < k \<Longrightarrow> rough S k"
    show ?thesis
    proof
      assume l: "1 \<le> k \<and> k \<le> N \<and> rough S k"
      with False have "2 \<le> k" by simp
      with a [of k] l show "k = 1 \<or> k \<in> ?T" by simp
    next
      assume "k = 1 \<or> k \<in> ?T"
      with False have "is_prime k" "b < k" "k \<le> N" by auto
      with b [of k] show "1 \<le> k \<and> k \<le> N \<and> rough S k" by (simp add: is_prime_def)
    qed
  qed
  have R: "{k. 1 \<le> k \<and> k \<le> N \<and> rough S k} = insert 1 ?T"
    by (rule set_eqI) (use * in simp)
  have "1 \<notin> ?T" by (simp add: is_prime_def)
  then have "card (insert 1 ?T) = 1 + card ?T" using finT by simp
  then have "phi N S = 1 + card ?T" unfolding phi_def R .
  moreover have "{k. is_prime k \<and> k \<le> N} = S \<union> ?T" "S \<inter> ?T = {}"
    using N(1) by (auto simp: S)
  then have "prime_pi N = card S + card ?T"
    using finS finT by (simp add: prime_pi_card card_Un_disjoint)
  ultimately show ?thesis by simp
qed

lemma prime_test:
  assumes S: "S = {q. is_prime q \<and> q \<le> b}" and k: "2 \<le> k" "k < (b + 1) * (b + 1)"
    and t: "\<forall>q\<in>S. q dvd k \<longrightarrow> q = k"
  shows "is_prime k"
proof (rule ccontr)
  assume "\<not> is_prime k"
  from composite_small_factor [OF k(1) this] obtain q where
    q: "is_prime q" "q dvd k" "q * q \<le> k" by auto
  have "q \<le> b"
  proof (rule ccontr)
    assume "\<not> q \<le> b"
    then have "b + 1 \<le> q" by simp
    then have "(b + 1) * (b + 1) \<le> q * q" using mult_le_mono by blast
    with q k show False by linarith
  qed
  with q t have "q = k" by (simp add: S)
  with q(3) have "k * k \<le> k" by simp
  moreover from k(1) have "k * 2 \<le> k * k" by simp
  ultimately show False using k(1) by linarith
qed

subsection \<open>Evaluating the formula\<close>

text \<open>
  The primes up to 1000, in increasing order. That the list holds exactly these primes
  is lemma \<open>complete_168_1000\<close> below.
\<close>

definition PL :: "nat list" where
  "PL =
    [2, 3, 5, 7, 11, 13, 17, 19, 23, 29, 31, 37, 41, 43, 47, 53, 59, 61, 67, 71, 73, 79, 83,
     89, 97, 101, 103, 107, 109, 113, 127, 131, 137, 139, 149, 151, 157, 163, 167, 173,
     179, 181, 191, 193, 197, 199, 211, 223, 227, 229, 233, 239, 241, 251, 257, 263, 269,
     271, 277, 281, 283, 293, 307, 311, 313, 317, 331, 337, 347, 349, 353, 359, 367, 373,
     379, 383, 389, 397, 401, 409, 419, 421, 431, 433, 439, 443, 449, 457, 461, 463, 467,
     479, 487, 491, 499, 503, 509, 521, 523, 541, 547, 557, 563, 569, 571, 577, 587, 593,
     599, 601, 607, 613, 617, 619, 631, 641, 643, 647, 653, 659, 661, 673, 677, 683, 691,
     701, 709, 719, 727, 733, 739, 743, 751, 757, 761, 769, 773, 787, 797, 809, 811, 821,
     823, 827, 829, 839, 853, 857, 859, 863, 877, 881, 883, 887, 907, 911, 919, 929, 937,
     941, 947, 953, 967, 971, 977, 983, 991, 997]"

definition nth_prime :: "nat \<Rightarrow> nat" where
  "nth_prime i = PL ! (i - 1)"

definition first_primes :: "nat \<Rightarrow> nat set" where
  "first_primes a = set (take a PL)"

definition complete :: "nat \<Rightarrow> nat \<Rightarrow> bool" where
  "complete a b \<longleftrightarrow> a \<le> length PL \<and> first_primes a = {q. is_prime q \<and> q \<le> b}"

fun ascending :: "nat list \<Rightarrow> bool" where
  "ascending (x # y # zs) = (x < y \<and> ascending (y # zs))"
| "ascending zs = True"

text \<open>Legendre's recurrence, with the \<open>a\<close> smallest primes.\<close>

fun phi_ev :: "nat \<Rightarrow> nat \<Rightarrow> int" where
  "phi_ev x 0 = int x"
| "phi_ev x (Suc a) =
     (if x < nth_prime (Suc a) then (if x = 0 then 0 else 1)
      else phi_ev x a - phi_ev (x div nth_prime (Suc a)) a)"

lemma ascending_sorted: "ascending xs \<Longrightarrow> sorted_wrt (<) xs"
  by (induction xs rule: ascending.induct) (auto simp: less_trans)

lemma length_PL: "length PL = 168"
  by (simp add: PL_def)

lemma PL_sorted: "sorted_wrt (<) PL"
  by (rule ascending_sorted) (simp add: PL_def)

lemma PL_nth_less: "i < j \<Longrightarrow> j < length PL \<Longrightarrow> PL ! i < PL ! j"
  using PL_sorted by (simp add: sorted_wrt_iff_nth_less)

lemma PL_distinct: "distinct PL"
  unfolding distinct_conv_nth
proof (intro allI impI)
  fix i j assume "i < length PL" "j < length PL" "i \<noteq> j"
  then consider "i < j" | "j < i" by linarith
  then show "PL ! i \<noteq> PL ! j"
    using PL_nth_less [of i j] PL_nth_less [of j i] \<open>i < length PL\<close> \<open>j < length PL\<close>
    by cases auto
qed

lemma card_first_primes: "a \<le> length PL \<Longrightarrow> card (first_primes a) = a"
  unfolding first_primes_def using PL_distinct by (simp add: distinct_card)

lemma first_primes_0 [simp]: "first_primes 0 = {}"
  by (simp add: first_primes_def)

lemma first_primes_Suc:
  "a < length PL \<Longrightarrow> first_primes (Suc a) = insert (nth_prime (Suc a)) (first_primes a)"
  by (simp add: first_primes_def nth_prime_def take_Suc_conv_app_nth)

lemma first_primes_iff: "q \<in> first_primes a \<longleftrightarrow> (\<exists>i<a. i < length PL \<and> q = PL ! i)"
  by (auto simp: first_primes_def in_set_conv_nth)

lemma first_primes_mono: "a \<le> a' \<Longrightarrow> first_primes a \<subseteq> first_primes a'"
  unfolding first_primes_def by (rule set_take_subset_set_take)

lemma phi_ev_correct:
  assumes "complete a0 b0" "a \<le> a0"
  shows "phi_ev x a = int (phi x (first_primes a))"
  using assms(2)
proof (induction a arbitrary: x)
  case 0
  show ?case by simp
next
  case (Suc a)
  let ?p = "nth_prime (Suc a)" and ?S = "first_primes a"
  from assms(1) have len: "a0 \<le> length PL" and
    all: "first_primes a0 = {q. is_prime q \<and> q \<le> b0}" by (simp_all add: complete_def)
  from Suc.prems len have a: "a < length PL" "a < a0" by auto
  have ins: "first_primes (Suc a) = insert ?p ?S" using a(1) by (rule first_primes_Suc)
  have p_eq: "?p = PL ! a" by (simp add: nth_prime_def)
  have "?p \<in> first_primes a0" using a by (auto simp: first_primes_iff p_eq)
  then have p: "is_prime ?p" "?p \<le> b0" by (simp_all add: all)
  have S: "\<forall>q\<in>?S. is_prime q \<and> q \<noteq> ?p"
  proof
    fix q assume q: "q \<in> ?S"
    then obtain i where i: "i < a" "q = PL ! i" by (auto simp: first_primes_iff)
    with PL_nth_less [of i a] a have "q < ?p" by (simp add: p_eq)
    moreover from q first_primes_mono [of a a0] a have "q \<in> first_primes a0" by auto
    ultimately show "is_prime q \<and> q \<noteq> ?p" by (simp add: all)
  qed
  show ?case
  proof (cases "x < ?p")
    case True
    have "q \<in> first_primes (Suc a)" if "is_prime q \<and> q \<le> x" for q
    proof -
      from that True p have "q \<in> first_primes a0" by (simp add: all)
      then obtain j where j: "j < a0" "j < length PL" "q = PL ! j"
        by (auto simp: first_primes_iff)
      have "j < a"
      proof (rule ccontr)
        assume "\<not> j < a"
        then have "a = j \<or> a < j" by auto
        with PL_nth_less [of a j] j have "PL ! a \<le> PL ! j" by auto
        with that True j show False by (simp add: p_eq)
      qed
      then have "j < Suc a" by simp
      with j show ?thesis unfolding first_primes_iff by blast
    qed
    moreover have "\<forall>q\<in>first_primes (Suc a). 2 \<le> q"
      using S p by (auto simp: ins is_prime_def)
    ultimately have "phi x (first_primes (Suc a)) = (if x = 0 then 0 else 1)"
      by (intro phi_small) auto
    with True show ?thesis by simp
  next
    case False
    have "phi x (insert ?p ?S) + phi (x div ?p) ?S = phi x ?S"
      using p(1) S by (rule phi_insert)
    then have "int (phi x (insert ?p ?S)) = int (phi x ?S) - int (phi (x div ?p) ?S)" by linarith
    with False Suc.IH [of x] Suc.IH [of "x div ?p"] a show ?thesis by (simp add: ins)
  qed
qed

lemma legendre_ev:
  assumes "complete a b" "b \<le> N" "N < (b + 1) * (b + 1)" "1 \<le> N"
  shows "int (prime_pi N) = phi_ev N a + int a - 1"
proof -
  from assms(1) have "a \<le> length PL" "first_primes a = {q. is_prime q \<and> q \<le> b}"
    by (simp_all add: complete_def)
  with legendre [OF this(2) assms(2-4)] card_first_primes [of a]
  have "phi N (first_primes a) + a = 1 + prime_pi N" by simp
  then show ?thesis using phi_ev_correct [OF assms(1) order_refl, of N] by linarith
qed

text \<open>From the primes up to \<open>b\<close> to the primes up to \<open>b'\<close>.\<close>

definition trial :: "nat list \<Rightarrow> nat \<Rightarrow> nat \<Rightarrow> bool" where
  "trial small hi q \<longleftrightarrow> 2 \<le> q \<and> q \<le> hi \<and> list_all (\<lambda>r. q mod r \<noteq> 0 \<or> r = q) small"

lemma level_up:
  assumes c: "complete a b" and a': "a' \<le> length PL" and hi: "b' < (b + 1) * (b + 1)"
    and t: "list_all (trial (take a PL) b') (take a' PL)" and pi: "prime_pi b' = a'"
  shows "complete a' b'"
proof -
  from c have S: "first_primes a = {q. is_prime q \<and> q \<le> b}" by (simp add: complete_def)
  have "is_prime q \<and> q \<le> b'" if "q \<in> first_primes a'" for q
  proof -
    from that t have q: "trial (take a PL) b' q" by (simp add: first_primes_def list_all_iff)
    then have "\<forall>r\<in>first_primes a. r dvd q \<longrightarrow> r = q"
      by (auto simp: trial_def first_primes_def list_all_iff dvd_eq_mod_eq_0)
    moreover from q hi have "2 \<le> q" "q < (b + 1) * (b + 1)" by (auto simp: trial_def)
    ultimately have "is_prime q" using S by (intro prime_test [of "first_primes a" b]) auto
    with q show ?thesis by (simp add: trial_def)
  qed
  then have sub: "first_primes a' \<subseteq> {q. is_prime q \<and> q \<le> b'}" by auto
  have fin: "finite {q. is_prime q \<and> q \<le> b'}" by (rule finite_subset [of _ "{..b'}"]) auto
  have "card (first_primes a') = card {q. is_prime q \<and> q \<le> b'}"
    using a' pi by (simp add: card_first_primes prime_pi_card)
  with sub fin have "first_primes a' = {q. is_prime q \<and> q \<le> b'}"
    by (intro card_subset_eq) auto
  with a' show ?thesis by (simp add: complete_def)
qed

text \<open>The recurrence is evaluated by rewriting with these rules only.\<close>

lemma nth_prime_tab:
  "nth_prime 1 = 2" "nth_prime 2 = 3" "nth_prime 3 = 5" "nth_prime 4 = 7" "nth_prime 5 = 11"
  "nth_prime 6 = 13" "nth_prime 7 = 17" "nth_prime 8 = 19" "nth_prime 9 = 23"
  "nth_prime 10 = 29" "nth_prime 11 = 31" "nth_prime 12 = 37" "nth_prime 13 = 41"
  "nth_prime 14 = 43" "nth_prime 15 = 47" "nth_prime 16 = 53" "nth_prime 17 = 59"
  "nth_prime 18 = 61" "nth_prime 19 = 67" "nth_prime 20 = 71" "nth_prime 21 = 73"
  "nth_prime 22 = 79" "nth_prime 23 = 83" "nth_prime 24 = 89" "nth_prime 25 = 97"
  "nth_prime 26 = 101" "nth_prime 27 = 103" "nth_prime 28 = 107" "nth_prime 29 = 109"
  "nth_prime 30 = 113" "nth_prime 31 = 127" "nth_prime 32 = 131" "nth_prime 33 = 137"
  "nth_prime 34 = 139" "nth_prime 35 = 149" "nth_prime 36 = 151" "nth_prime 37 = 157"
  "nth_prime 38 = 163" "nth_prime 39 = 167" "nth_prime 40 = 173" "nth_prime 41 = 179"
  "nth_prime 42 = 181" "nth_prime 43 = 191" "nth_prime 44 = 193" "nth_prime 45 = 197"
  "nth_prime 46 = 199" "nth_prime 47 = 211" "nth_prime 48 = 223" "nth_prime 49 = 227"
  "nth_prime 50 = 229" "nth_prime 51 = 233" "nth_prime 52 = 239" "nth_prime 53 = 241"
  "nth_prime 54 = 251" "nth_prime 55 = 257" "nth_prime 56 = 263" "nth_prime 57 = 269"
  "nth_prime 58 = 271" "nth_prime 59 = 277" "nth_prime 60 = 281" "nth_prime 61 = 283"
  "nth_prime 62 = 293" "nth_prime 63 = 307" "nth_prime 64 = 311" "nth_prime 65 = 313"
  "nth_prime 66 = 317" "nth_prime 67 = 331" "nth_prime 68 = 337" "nth_prime 69 = 347"
  "nth_prime 70 = 349" "nth_prime 71 = 353" "nth_prime 72 = 359" "nth_prime 73 = 367"
  "nth_prime 74 = 373" "nth_prime 75 = 379" "nth_prime 76 = 383" "nth_prime 77 = 389"
  "nth_prime 78 = 397" "nth_prime 79 = 401" "nth_prime 80 = 409" "nth_prime 81 = 419"
  "nth_prime 82 = 421" "nth_prime 83 = 431" "nth_prime 84 = 433" "nth_prime 85 = 439"
  "nth_prime 86 = 443" "nth_prime 87 = 449" "nth_prime 88 = 457" "nth_prime 89 = 461"
  "nth_prime 90 = 463" "nth_prime 91 = 467" "nth_prime 92 = 479" "nth_prime 93 = 487"
  "nth_prime 94 = 491" "nth_prime 95 = 499" "nth_prime 96 = 503" "nth_prime 97 = 509"
  "nth_prime 98 = 521" "nth_prime 99 = 523" "nth_prime 100 = 541" "nth_prime 101 = 547"
  "nth_prime 102 = 557" "nth_prime 103 = 563" "nth_prime 104 = 569" "nth_prime 105 = 571"
  "nth_prime 106 = 577" "nth_prime 107 = 587" "nth_prime 108 = 593" "nth_prime 109 = 599"
  "nth_prime 110 = 601" "nth_prime 111 = 607" "nth_prime 112 = 613" "nth_prime 113 = 617"
  "nth_prime 114 = 619" "nth_prime 115 = 631" "nth_prime 116 = 641" "nth_prime 117 = 643"
  "nth_prime 118 = 647" "nth_prime 119 = 653" "nth_prime 120 = 659" "nth_prime 121 = 661"
  "nth_prime 122 = 673" "nth_prime 123 = 677" "nth_prime 124 = 683" "nth_prime 125 = 691"
  "nth_prime 126 = 701" "nth_prime 127 = 709" "nth_prime 128 = 719" "nth_prime 129 = 727"
  "nth_prime 130 = 733" "nth_prime 131 = 739" "nth_prime 132 = 743" "nth_prime 133 = 751"
  "nth_prime 134 = 757" "nth_prime 135 = 761" "nth_prime 136 = 769" "nth_prime 137 = 773"
  "nth_prime 138 = 787" "nth_prime 139 = 797" "nth_prime 140 = 809" "nth_prime 141 = 811"
  "nth_prime 142 = 821" "nth_prime 143 = 823" "nth_prime 144 = 827" "nth_prime 145 = 829"
  "nth_prime 146 = 839" "nth_prime 147 = 853" "nth_prime 148 = 857" "nth_prime 149 = 859"
  "nth_prime 150 = 863" "nth_prime 151 = 877" "nth_prime 152 = 881" "nth_prime 153 = 883"
  "nth_prime 154 = 887" "nth_prime 155 = 907" "nth_prime 156 = 911" "nth_prime 157 = 919"
  "nth_prime 158 = 929" "nth_prime 159 = 937" "nth_prime 160 = 941" "nth_prime 161 = 947"
  "nth_prime 162 = 953" "nth_prime 163 = 967" "nth_prime 164 = 971" "nth_prime 165 = 977"
  "nth_prime 166 = 983" "nth_prime 167 = 991" "nth_prime 168 = 997"
  by (simp_all add: nth_prime_def PL_def)

lemma phi_ev_numeral:
  "phi_ev x (numeral k) =
     (if x < nth_prime (numeral k) then (if x = 0 then 0 else 1)
      else phi_ev x (pred_numeral k) - phi_ev (x div nth_prime (numeral k)) (pred_numeral k))"
  by (simp add: numeral_eq_Suc)

lemma phi_ev_one: "phi_ev x 1 = int x - int (x div 2)"
  by (simp add: nth_prime_def PL_def)

lemmas ev_arith =
  div_0 mod_0 div_by_0 mod_by_0 div_by_1 mod_by_1 one_div_numeral one_mod_numeral
  numeral_div_numeral numeral_mod_numeral of_bool_eq one_neq_zero numeral_neq_zero
  arith_simps arith_special divmod_trivial divmod_cancel divmod_steps divmod_step_def
  fst_conv snd_conv numeral_One case_prod_beta rel_simps numeral_times_numeral
  mult_zero_right mult_1_right euclidean_size_nat_less_eq_iff diff_nat_numeral nat_numeral
  if_True if_False simp_thms of_nat_numeral of_nat_0 of_nat_1 pred_numeral_simps
  not_less_zero zero_less_one less_numeral_extra nat_0 mult_0_right mult_0 add_0 le0
  diff_zero mult_zero_left nat_one_as_int [symmetric]

lemmas phi_ev_rules = phi_ev_numeral phi_ev_one phi_ev.simps(1) nth_prime_tab ev_arith

lemma phi_ev_31: "phi_ev 31 3 = 9"
  by (simp only: phi_ev_rules cong: if_weak_cong)

lemma phi_ev_1000: "phi_ev 1000 11 = 158"
  by (simp only: phi_ev_rules cong: if_weak_cong)

lemma phi_ev_10: "phi_ev 10 3 = 2"
  by (simp only: phi_ev_rules cong: if_weak_cong)

lemma phi_ev_100: "phi_ev 100 11 = 15"
  by (simp only: phi_ev_rules cong: if_weak_cong)

lemma phi_ev_10000: "phi_ev 10000 168 = 1062"
  by (simp only: phi_ev_rules cong: if_weak_cong)

text \<open>
  The list of primes is certified in three stages, up to 5, 31 and 1000: each stage
  tests the candidates by trial division with the primes of the stage before, whose
  squares exceed them, and takes their number from Legendre's formula.
\<close>

lemma complete_3_5: "complete 3 5"
proof -
  have p: "is_prime 2" "is_prime 3" "is_prime 5" "\<not> is_prime 4" "\<not> is_prime 0" "\<not> is_prime 1"
    by code_simp+
  have "q \<le> 5 \<longleftrightarrow> q = 0 \<or> q = 1 \<or> q = 2 \<or> q = 3 \<or> q = 4 \<or> q = 5" for q :: nat
    by arith
  with p have "{q. is_prime q \<and> q \<le> 5} = {2, 3, 5}" by auto
  moreover have "first_primes 3 = {2, 3, 5}" by (auto simp: first_primes_def PL_def)
  ultimately show ?thesis by (simp add: complete_def length_PL)
qed

lemma prime_pi_31: "prime_pi 31 = 11"
  using legendre_ev [OF complete_3_5, of 31] phi_ev_31 by simp

lemma complete_11_31: "complete 11 31"
proof (rule level_up [OF complete_3_5])
  show "list_all (trial (take 3 PL) 31) (take 11 PL)"
    by (simp add: PL_def trial_def)
qed (simp_all add: length_PL prime_pi_31)

lemma prime_pi_1000: "prime_pi 1000 = 168"
  using legendre_ev [OF complete_11_31, of 1000] phi_ev_1000 by simp

lemma complete_168_1000: "complete 168 1000"
proof (rule level_up [OF complete_11_31])
  show "list_all (trial (take 11 PL) 1000) (take 168 PL)"
    by (simp add: PL_def trial_def)
qed (simp_all add: length_PL prime_pi_1000)

lemma prime_pi_10: "prime_pi 10 = 4"
  using legendre_ev [OF complete_3_5, of 10] phi_ev_10 by simp

lemma prime_pi_100: "prime_pi 100 = 25"
  using legendre_ev [OF complete_11_31, of 100] phi_ev_100 by simp

lemma prime_pi_10000: "prime_pi 10000 = 1229"
  using legendre_ev [OF complete_168_1000, of 10000] phi_ev_10000 by simp

lemma phi_ev_100000: "phi_ev 100000 168 = 9425"
  by (simp only: phi_ev_rules cong: if_weak_cong)

text \<open>
  For \<open>10^6\<close> the sum \<open>\<phi>(x, 168) = \<phi>(x, 1) - \<Sum> \<phi>(x div p\<^sub>a\<^sub>+\<^sub>1, a)\<close> is evaluated term by
  term.
\<close>

lemma phi_ev_1000000_part_1:
  "phi_ev 333333 1 = 166667" "phi_ev 200000 2 = 66667" "phi_ev 142857 3 = 38095"
  "phi_ev 90909 4 = 20779" "phi_ev 76923 5 = 15984" "phi_ev 58823 6 = 11284"
  "phi_ev 52631 7 = 9503" "phi_ev 43478 8 = 7435" "phi_ev 34482 9 = 5647"
  "phi_ev 32258 10 = 5099" "phi_ev 27027 11 = 4137" "phi_ev 24390 12 = 3618"
  "phi_ev 23255 13 = 3357" "phi_ev 21276 14 = 2983" "phi_ev 18867 15 = 2576"
  "phi_ev 16949 16 = 2262" "phi_ev 16393 17 = 2144" "phi_ev 14925 18 = 1911"
  "phi_ev 14084 19 = 1776" "phi_ev 13698 20 = 1701" "phi_ev 12658 21 = 1554"
  "phi_ev 12048 22 = 1461"
  by (simp_all only: phi_ev_rules cong: if_weak_cong)

lemma phi_ev_1000000_part_2:
  "phi_ev 11235 23 = 1355" "phi_ev 10309 24 = 1245" "phi_ev 9900 25 = 1196"
  "phi_ev 9708 26 = 1172" "phi_ev 9345 27 = 1131" "phi_ev 9174 28 = 1110"
  "phi_ev 8849 29 = 1075" "phi_ev 7874 30 = 965" "phi_ev 7633 31 = 938" "phi_ev 7299 32 = 899"
  "phi_ev 7194 33 = 887"
  by (simp_all only: phi_ev_rules cong: if_weak_cong)

lemma phi_ev_1000000_part_3:
  "phi_ev 6711 34 = 833" "phi_ev 6622 35 = 821" "phi_ev 6369 36 = 795" "phi_ev 6134 37 = 764"
  "phi_ev 5988 38 = 746" "phi_ev 5780 39 = 720" "phi_ev 5586 40 = 698" "phi_ev 5524 41 = 690"
  "phi_ev 5235 42 = 655" "phi_ev 5181 43 = 648" "phi_ev 5076 44 = 634" "phi_ev 5025 45 = 630"
  "phi_ev 4739 46 = 594" "phi_ev 4484 47 = 563" "phi_ev 4405 48 = 552"
  by (simp_all only: phi_ev_rules cong: if_weak_cong)

lemma phi_ev_1000000_part_4:
  "phi_ev 4366 49 = 548" "phi_ev 4291 50 = 540" "phi_ev 4184 51 = 524" "phi_ev 4149 52 = 519"
  "phi_ev 3984 53 = 497" "phi_ev 3891 54 = 486" "phi_ev 3802 55 = 474" "phi_ev 3717 56 = 463"
  "phi_ev 3690 57 = 458" "phi_ev 3610 58 = 447" "phi_ev 3558 59 = 440" "phi_ev 3533 60 = 435"
  "phi_ev 3412 61 = 419" "phi_ev 3257 62 = 399" "phi_ev 3215 63 = 392" "phi_ev 3194 64 = 389"
  "phi_ev 3154 65 = 382" "phi_ev 3021 66 = 368" "phi_ev 2967 67 = 361" "phi_ev 2881 68 = 350"
  "phi_ev 2865 69 = 348"
  by (simp_all only: phi_ev_rules cong: if_weak_cong)

lemma phi_ev_1000000_part_5:
  "phi_ev 2832 70 = 341" "phi_ev 2785 71 = 334" "phi_ev 2724 72 = 326" "phi_ev 2680 73 = 316"
  "phi_ev 2638 74 = 309" "phi_ev 2610 75 = 305" "phi_ev 2570 76 = 300" "phi_ev 2518 77 = 292"
  "phi_ev 2493 78 = 290" "phi_ev 2444 79 = 284" "phi_ev 2386 80 = 275" "phi_ev 2375 81 = 271"
  "phi_ev 2320 82 = 263" "phi_ev 2309 83 = 261" "phi_ev 2277 84 = 255" "phi_ev 2257 85 = 251"
  "phi_ev 2227 86 = 246" "phi_ev 2188 87 = 241" "phi_ev 2169 88 = 239" "phi_ev 2159 89 = 237"
  "phi_ev 2141 90 = 234" "phi_ev 2087 91 = 225" "phi_ev 2053 92 = 219" "phi_ev 2036 93 = 216"
  "phi_ev 2004 94 = 211"
  by (simp_all only: phi_ev_rules cong: if_weak_cong)

lemma phi_ev_1000000_part_6:
  "phi_ev 1988 95 = 206" "phi_ev 1964 96 = 202" "phi_ev 1919 97 = 197" "phi_ev 1912 98 = 195"
  "phi_ev 1848 99 = 185" "phi_ev 1828 100 = 182" "phi_ev 1795 101 = 178" "phi_ev 1776 102 = 173"
  "phi_ev 1757 103 = 171" "phi_ev 1751 104 = 169" "phi_ev 1733 105 = 166"
  "phi_ev 1703 106 = 161" "phi_ev 1686 107 = 157" "phi_ev 1669 108 = 156"
  "phi_ev 1663 109 = 153" "phi_ev 1647 110 = 150" "phi_ev 1631 111 = 148"
  "phi_ev 1620 112 = 145" "phi_ev 1615 113 = 143" "phi_ev 1584 114 = 137"
  "phi_ev 1560 115 = 132" "phi_ev 1555 116 = 130" "phi_ev 1545 117 = 127"
  "phi_ev 1531 118 = 125" "phi_ev 1517 119 = 122" "phi_ev 1512 120 = 121"
  "phi_ev 1485 121 = 115"
  by (simp_all only: phi_ev_rules cong: if_weak_cong)

lemma phi_ev_1000000_part_7:
  "phi_ev 1477 122 = 112" "phi_ev 1464 123 = 110" "phi_ev 1447 124 = 106"
  "phi_ev 1426 125 = 100" "phi_ev 1410 126 = 98" "phi_ev 1390 127 = 95" "phi_ev 1375 128 = 93"
  "phi_ev 1364 129 = 90" "phi_ev 1353 130 = 88" "phi_ev 1345 131 = 87" "phi_ev 1331 132 = 86"
  "phi_ev 1321 133 = 84" "phi_ev 1314 134 = 81" "phi_ev 1300 135 = 77" "phi_ev 1293 136 = 75"
  "phi_ev 1270 137 = 69" "phi_ev 1254 138 = 67" "phi_ev 1236 139 = 64" "phi_ev 1233 140 = 63"
  "phi_ev 1218 141 = 59" "phi_ev 1215 142 = 57" "phi_ev 1209 143 = 55" "phi_ev 1206 144 = 54"
  "phi_ev 1191 145 = 51" "phi_ev 1172 146 = 48" "phi_ev 1166 147 = 46"
  by (simp_all only: phi_ev_rules cong: if_weak_cong)

lemma phi_ev_1000000_part_8:
  "phi_ev 1164 148 = 45" "phi_ev 1158 149 = 43" "phi_ev 1140 150 = 40" "phi_ev 1135 151 = 39"
  "phi_ev 1132 152 = 38" "phi_ev 1127 153 = 36" "phi_ev 1102 154 = 31" "phi_ev 1097 155 = 30"
  "phi_ev 1088 156 = 26" "phi_ev 1076 157 = 24" "phi_ev 1067 158 = 22" "phi_ev 1062 159 = 20"
  "phi_ev 1055 160 = 18" "phi_ev 1049 161 = 16" "phi_ev 1034 162 = 13" "phi_ev 1029 163 = 10"
  "phi_ev 1023 164 = 9" "phi_ev 1017 165 = 6" "phi_ev 1009 166 = 4" "phi_ev 1003 167 = 2"
  by (simp_all only: phi_ev_rules cong: if_weak_cong)


lemmas phi_ev_1000000_parts =
  phi_ev_1000000_part_1 phi_ev_1000000_part_2 phi_ev_1000000_part_3 phi_ev_1000000_part_4
  phi_ev_1000000_part_5 phi_ev_1000000_part_6 phi_ev_1000000_part_7 phi_ev_1000000_part_8

lemma phi_ev_1000000: "phi_ev 1000000 168 = 78331"
  by (simp only: phi_ev_numeral [of 1000000] phi_ev_one [of 1000000] phi_ev_1000000_parts
        nth_prime_tab ev_arith cong: if_weak_cong)

lemma prime_pi_100000: "prime_pi 100000 = 9592"
  using legendre_ev [OF complete_168_1000, of 100000] phi_ev_100000 by simp

lemma prime_pi_1000000: "prime_pi 1000000 = 78498"
  using legendre_ev [OF complete_168_1000, of 1000000] phi_ev_1000000 by simp

text \<open>
  Claim C1: for every \<open>n\<close> in \<open>{10, 100, 1000, 10000, 100000, 1000000}\<close> the sieve with
  upper bound \<open>n\<close>, run with any number of threads, returns a count that is the value
  \<open>\<pi>(n)\<close> of the prime-counting function: 4, 25, 168, 1229, 9592 and 78498.
\<close>

theorem sieve_known_values:
  assumes "0 < W" "int W < 2 ^ 31"
  shows "sieve W 10 = Some (Inr 4) \<and> sieve W 100 = Some (Inr 25) \<and>
         sieve W 1000 = Some (Inr 168) \<and> sieve W 10000 = Some (Inr 1229) \<and>
         sieve W 100000 = Some (Inr 9592) \<and> sieve W 1000000 = Some (Inr 78498) \<and>
         prime_pi 10 = 4 \<and> prime_pi 100 = 25 \<and> prime_pi 1000 = 168 \<and>
         prime_pi 10000 = 1229 \<and> prime_pi 100000 = 9592 \<and> prime_pi 1000000 = 78498"
proof -
  have "sieve W 10 = Some (Inr 4)"
    using sieve_correct [OF assms, of 10] by (simp add: prime_pi_10)
  moreover have "sieve W 100 = Some (Inr 25)"
    using sieve_correct [OF assms, of 100] by (simp add: prime_pi_100)
  moreover have "sieve W 1000 = Some (Inr 168)"
    using sieve_correct [OF assms, of 1000] by (simp add: prime_pi_1000)
  moreover have "sieve W 10000 = Some (Inr 1229)"
    using sieve_correct [OF assms, of 10000] by (simp add: prime_pi_10000)
  moreover have "sieve W 100000 = Some (Inr 9592)"
    using sieve_correct [OF assms, of 100000] by (simp add: prime_pi_100000)
  moreover have "sieve W 1000000 = Some (Inr 78498)"
    using sieve_correct [OF assms, of 1000000] by (simp add: prime_pi_1000000)
  ultimately show ?thesis
    by (simp only: prime_pi_10 prime_pi_100 prime_pi_1000 prime_pi_10000 prime_pi_100000
          prime_pi_1000000 simp_thms)
qed

theorem sieve_known_values_witness:
  "(0::nat) < 4 \<and> int 4 < 2 ^ 31 \<and>
   sieve 4 10 = Some (Inr 4) \<and> sieve 4 100 = Some (Inr 25) \<and>
   sieve 4 1000 = Some (Inr 168) \<and> sieve 4 10000 = Some (Inr 1229) \<and>
   sieve 4 100000 = Some (Inr 9592) \<and> sieve 4 1000000 = Some (Inr 78498)"
  using sieve_known_values [of 4] by simp

end
